theory Spec2Isabelle
  imports Main "HOL-Library.Multiset" "HOL-Library.Product_Lexorder" "HOL-Library.AList"
begin

section \<open>Data model (scripts/sysinfo.py)\<close>

text \<open>
  \<^verbatim>\<open>NodeInfo\<close> is a dataclass with the fields \<^verbatim>\<open>id\<close>, \<^verbatim>\<open>memory\<close>, \<^verbatim>\<open>cores_list\<close> and
  \<^verbatim>\<open>distance\<close>. The field \<^verbatim>\<open>id\<close> is written \<open>id'\<close> here, since \<open>id\<close> is the identity
  function of HOL. A core tuple \<^verbatim>\<open>tuple[int, ...]\<close> is an \<open>int list\<close>; a cluster is a list
  of nodes.
\<close>

record NodeInfo =
  id' :: int
  memory :: bool
  cores_list :: "int list list"
  distance :: "int list"

text \<open>
  The exceptions of Python that the modelled code can raise. \<^verbatim>\<open>IOError\<close> is
  \<^verbatim>\<open>OSError\<close>; \<^verbatim>\<open>FileNotFoundError\<close> and \<^verbatim>\<open>PermissionError\<close> are subclasses of it.
\<close>

datatype os_error = FileNotFoundError | PermissionError | OtherOSError


datatype error = ValueError | IndexError | OSError os_error

section \<open>Strings of Python\<close>

text \<open>
  A string is a list of code points below 256, which covers every ASCII file name and
  file content. On these code points:
  \<^item> \<^verbatim>\<open>str.strip()\<close> and \<^verbatim>\<open>str.split()\<close> treat 9 to 13, 28 to 31, 32, 133 and 160 as
    whitespace;
  \<^item> \<^verbatim>\<open>int()\<close> skips 9 to 13, 32, 133 and 160 around the literal, but not the
    separators 28 to 31;
  \<^item> \<^verbatim>\<open>str.isdigit()\<close> accepts the decimal digits and the superscripts 178, 179 and
    185, which \<^verbatim>\<open>int()\<close> does not accept.
\<close>

definition is_space :: "char \<Rightarrow> bool" where
  "is_space c = (of_char c \<in> set [9, 10, 11, 12, 13, 28, 29, 30, 31, 32, 133, 160 :: nat])"

definition int_space :: "char \<Rightarrow> bool" where
  "int_space c = (of_char c \<in> set [9, 10, 11, 12, 13, 32, 133, 160 :: nat])"

definition is_decimal :: "char \<Rightarrow> bool" where
  "is_decimal c = (48 \<le> (of_char c :: nat) \<and> (of_char c :: nat) \<le> 57)"

definition is_digit :: "char \<Rightarrow> bool" where
  "is_digit c = (is_decimal c \<or> of_char c \<in> set [178, 179, 185 :: nat])"

text \<open>Dropping the characters that satisfy \<open>P\<close> at both ends; \<^verbatim>\<open>s.strip()\<close>.\<close>

definition strip_with :: "(char \<Rightarrow> bool) \<Rightarrow> string \<Rightarrow> string" where
  "strip_with P s = rev (dropWhile P (rev (dropWhile P s)))"

definition py_strip :: "string \<Rightarrow> string" where
  "py_strip s = strip_with is_space s"

text \<open>
  Splitting at every character that satisfies \<open>P\<close>; \<^verbatim>\<open>s.split(',')\<close> splits at the
  commas and keeps empty pieces, \<^verbatim>\<open>s.split()\<close> splits at whitespace and drops them.
\<close>

fun split_at :: "(char \<Rightarrow> bool) \<Rightarrow> string \<Rightarrow> string list" where
  "split_at P [] = [[]]"
| "split_at P (c # cs) =
     (if P c then [] # split_at P cs
      else (case split_at P cs of [] \<Rightarrow> [[c]] | w # ws \<Rightarrow> (c # w) # ws))"

definition py_split :: "char \<Rightarrow> string \<Rightarrow> string list" where
  "py_split sep s = split_at (\<lambda>c. c = sep) s"

definition py_split_ws :: "string \<Rightarrow> string list" where
  "py_split_ws s = filter (\<lambda>w. w \<noteq> []) (split_at is_space s)"

text \<open>\<^verbatim>\<open>s.isdigit()\<close>: non-empty and every character a digit.\<close>

definition isdigit :: "string \<Rightarrow> bool" where
  "isdigit s = (s \<noteq> [] \<and> list_all is_digit s)"

text \<open>The value of a string of decimal digits.\<close>

definition digits_value :: "string \<Rightarrow> int" where
  "digits_value s = fold (\<lambda>c v. 10 * v + (int (of_char c) - 48)) s 0"

text \<open>
  The digits of an integer literal may be grouped by single underscores:
  \<^verbatim>\<open>int('1_000')\<close> is 1000, \<^verbatim>\<open>int('_1')\<close>, \<^verbatim>\<open>int('1_')\<close> and \<^verbatim>\<open>int('1__0')\<close> raise.
\<close>

fun digit_groups :: "string \<Rightarrow> bool" where
  "digit_groups [] = False"
| "digit_groups [c] = is_decimal c"
| "digit_groups (c # d # cs) =
     (is_decimal c \<and> (if d = CHR ''_'' then digit_groups cs else digit_groups (d # cs)))"

text \<open>
  The conversions between \<^verbatim>\<open>int\<close> and \<^verbatim>\<open>str\<close> raise \<^verbatim>\<open>ValueError\<close> beyond 4300
  digits (the default of \<^verbatim>\<open>sys.get_int_max_str_digits()\<close>).
\<close>

definition max_str_digits :: int where
  "max_str_digits = 4300"

text \<open>
  \<^verbatim>\<open>int(s)\<close> for a string: whitespace around the literal is skipped, one sign is
  allowed, then digits in groups; \<open>None\<close> is \<^verbatim>\<open>ValueError\<close>.
\<close>

definition py_int :: "string \<Rightarrow> int option" where
  "py_int s =
     (let t = strip_with int_space s;
          neg = (t \<noteq> [] \<and> hd t = CHR ''-'');
          body = (if t \<noteq> [] \<and> (hd t = CHR ''-'' \<or> hd t = CHR ''+'') then tl t else t)
      in if digit_groups body \<and> int (length (filter is_decimal body)) \<le> max_str_digits
         then Some ((if neg then - 1 else 1) * digits_value (filter is_decimal body))
         else None)"

text \<open>\<^verbatim>\<open>[int(i) for i in parts]\<close>: the first part that does not parse raises.\<close>

fun py_ints :: "string list \<Rightarrow> error + int list" where
  "py_ints [] = Inr []"
| "py_ints (s # ss) =
     (case py_int s of
        None \<Rightarrow> Inl ValueError
      | Some v \<Rightarrow> (case py_ints ss of Inl e \<Rightarrow> Inl e | Inr vs \<Rightarrow> Inr (v # vs)))"

text \<open>
  \<^verbatim>\<open>str(n)\<close> for an integer, as used in \<^verbatim>\<open>f"cpu{logical_id}"\<close>; \<open>None\<close> is the
  \<^verbatim>\<open>ValueError\<close> for a number of more than 4300 digits.
\<close>

function nat_str :: "nat \<Rightarrow> string" where
  "nat_str n = (if n < 10 then [char_of (48 + n)] else nat_str (n div 10) @ [char_of (48 + n mod 10)])"
  by pat_completeness auto
termination
  by (relation "measure (\<lambda>n. n)") auto

definition py_str :: "int \<Rightarrow> string option" where
  "py_str i =
     (let digits = nat_str (nat \<bar>i\<bar>)
      in if max_str_digits < int (length digits) then None
         else Some (if i < 0 then CHR ''-'' # digits else digits))"

section \<open>The topology tree\<close>

text \<open>
  The code reads the tree under \<^verbatim>\<open>/sys/devices/system\<close> through \<^verbatim>\<open>Path.open('r')\<close> with
  \<^verbatim>\<open>f.read()\<close>, and through \<^verbatim>\<open>Path.iterdir()\<close>. Either one returns or raises an
  \<^verbatim>\<open>OSError\<close>. A path is the list of its components; \<open>iterdir\<close> gives the names of the
  entries of a directory in the order the system lists them.
\<close>

record sysfs =
  read_text :: "string list \<Rightarrow> os_error + string"
  iterdir :: "string list \<Rightarrow> os_error + string list"

definition cpu_path :: "string list" where
  "cpu_path = [''sys'', ''devices'', ''system'', ''cpu'']"

definition node_path :: "string list" where
  "node_path = [''sys'', ''devices'', ''system'', ''node'']"

text \<open>What the code prints, one constructor per \<^verbatim>\<open>print\<close> statement.\<close>

datatype message =
    ErrorCpuPath
  | WarnCpu string
  | WarnMemoryNodes
  | ErrorNodePath
  | WarnNode int
  | WarnNoMemoryNodes

section \<open>Attribute readers (class SystemTopology)\<close>

text \<open>
  \<^verbatim>\<open>self.cpu_path / f"cpu{logical_id}"\<close>, which every reader builds inside its
  \<^verbatim>\<open>try\<close> block; the \<^verbatim>\<open>ValueError\<close> of the conversion is not among the exceptions
  that the readers catch.
\<close>

definition cpu_dir :: "int \<Rightarrow> error + string list" where
  "cpu_dir logical_id =
     (case py_str logical_id of
        None \<Rightarrow> Inl ValueError
      | Some s \<Rightarrow> Inr (cpu_path @ [''cpu'' @ s]))"

text \<open>
  \<^verbatim>\<open>_get_node_of_cpu(logical_id)\<close>: the first entry \<^verbatim>\<open>node<M>\<close> of the CPU's
  directory; \<^verbatim>\<open>None\<close> when there is none or the directory cannot be listed. The
  \<^verbatim>\<open>int()\<close> of the name's tail is outside what the \<^verbatim>\<open>except\<close> clause catches.
\<close>

definition is_node_name :: "string \<Rightarrow> bool" where
  "is_node_name name = (take 4 name = ''node'' \<and> isdigit (drop 4 name))"

definition get_node_of_cpu :: "sysfs \<Rightarrow> int \<Rightarrow> error + int option" where
  "get_node_of_cpu fs logical_id =
     (case cpu_dir logical_id of
        Inl e \<Rightarrow> Inl e
      | Inr dir \<Rightarrow>
     (case iterdir fs dir of
        Inl e \<Rightarrow> Inr None
      | Inr names \<Rightarrow>
          (case filter is_node_name names of
             [] \<Rightarrow> Inr None
           | name # _ \<Rightarrow>
               (case py_int (drop 4 name) of None \<Rightarrow> Inl ValueError | Some v \<Rightarrow> Inr (Some v)))))"

text \<open>
  \<^verbatim>\<open>_get_cpus_logical_ids(logical_id)\<close>:
  \<^verbatim>\<open>try: ... return [int(i) for i in f.read().strip().split(',')]\<close>
  \<^verbatim>\<open>except (IOError, FileNotFoundError): return []\<close>.
\<close>

definition get_cpus_logical_ids :: "sysfs \<Rightarrow> int \<Rightarrow> error + int list" where
  "get_cpus_logical_ids fs logical_id =
     (case cpu_dir logical_id of
        Inl e \<Rightarrow> Inl e
      | Inr dir \<Rightarrow>
     (case read_text fs (dir @ [''topology'', ''thread_siblings_list'']) of
        Inl e \<Rightarrow> Inr []
      | Inr text \<Rightarrow> py_ints (py_split (CHR '','') (py_strip text))))"

text \<open>
  \<^verbatim>\<open>_get_cache_info(logical_id)\<close>. The directories \<^verbatim>\<open>index<K>\<close> are sorted by
  \<^verbatim>\<open>int(x.name[5:])\<close>, a key that raises for a name that \<^verbatim>\<open>isdigit\<close> accepts and
  \<^verbatim>\<open>int\<close> does not. The loop over the sorted directories appends to \<^verbatim>\<open>cache_ids\<close>; an
  \<^verbatim>\<open>OSError\<close> leaves the loop (\<^verbatim>\<open>except ...: pass\<close>) and what was read so far is
  returned; a \<^verbatim>\<open>ValueError\<close> of \<^verbatim>\<open>int()\<close> is not caught.
\<close>

definition is_index_name :: "string \<Rightarrow> bool" where
  "is_index_name name = (take 5 name = ''index'' \<and> isdigit (drop 5 name))"

fun index_keys :: "string list \<Rightarrow> error + (int \<times> string) list" where
  "index_keys [] = Inr []"
| "index_keys (name # rest) =
     (case py_int (drop 5 name) of
        None \<Rightarrow> Inl ValueError
      | Some k \<Rightarrow>
          (case index_keys rest of
             Inl e \<Rightarrow> Inl e
           | Inr ks \<Rightarrow> Inr ((k, name) # ks)))"

fun read_cache_ids :: "sysfs \<Rightarrow> string list \<Rightarrow> string list \<Rightarrow> int list \<Rightarrow> error + int list" where
  "read_cache_ids fs cache_path [] cache_ids = Inr cache_ids"
| "read_cache_ids fs cache_path (cache_dir # rest) cache_ids =
     (case read_text fs (cache_path @ [cache_dir, ''id'']) of
        Inl e \<Rightarrow> Inr cache_ids
      | Inr text \<Rightarrow>
          (case py_int (py_strip text) of
             None \<Rightarrow> Inl ValueError
           | Some v \<Rightarrow> read_cache_ids fs cache_path rest (cache_ids @ [v])))"

definition get_cache_info :: "sysfs \<Rightarrow> int \<Rightarrow> error + int list" where
  "get_cache_info fs logical_id =
     (case cpu_dir logical_id of
        Inl e \<Rightarrow> Inl e
      | Inr dir \<Rightarrow>
     (case iterdir fs (dir @ [''cache'']) of
        Inl e \<Rightarrow> Inr []
      | Inr names \<Rightarrow>
          (case index_keys (filter is_index_name names) of
             Inl e \<Rightarrow> Inl e
           | Inr ks \<Rightarrow> read_cache_ids fs (dir @ [''cache'']) (map snd (sort_key fst ks)) [])))"

section \<open>NUMA node builder\<close>

text \<open>
  The CPU list of a node: \<^verbatim>\<open>if '-' in cpus_data: start, end = map(int, cpus_data.split("-"))\<close>
  (anything but two integers raises \<^verbatim>\<open>ValueError\<close>) and \<^verbatim>\<open>list(range(start, end + 1))\<close>,
  else \<^verbatim>\<open>[int(i) for i in cpus_data.split(",") if i.strip()]\<close>.
\<close>

definition parse_cpulist :: "string \<Rightarrow> error + int list" where
  "parse_cpulist cpus_data =
     (if CHR ''-'' \<in> set cpus_data
      then (case map py_int (py_split (CHR ''-'') cpus_data) of
              [Some start, Some end] \<Rightarrow> Inr [start..end]
            | _ \<Rightarrow> Inl ValueError)
      else py_ints (filter (\<lambda>i. py_strip i \<noteq> []) (py_split (CHR '','') cpus_data)))"

text \<open>
  \<^verbatim>\<open>for core in cpus: siblings = self._get_cpus_logical_ids(core);\<close>
  \<^verbatim>\<open>if siblings: cores_list.append(tuple(siblings))\<close>
\<close>

fun collect_cores :: "sysfs \<Rightarrow> int list \<Rightarrow> int list list \<Rightarrow> error + int list list" where
  "collect_cores fs [] cores = Inr cores"
| "collect_cores fs (core # rest) cores =
     (case get_cpus_logical_ids fs core of
        Inl e \<Rightarrow> Inl e
      | Inr siblings \<Rightarrow>
          collect_cores fs rest (if siblings \<noteq> [] then cores @ [siblings] else cores))"

text \<open>
  \<^verbatim>\<open>for core in cores_list: if core not in seen: seen.add(core); unique_cores.append(core)\<close>
\<close>

fun unique_loop :: "int list list \<Rightarrow> int list set \<Rightarrow> int list list \<Rightarrow> int list list" where
  "unique_loop [] seen unique_cores = unique_cores"
| "unique_loop (core # rest) seen unique_cores =
     (if core \<notin> seen then unique_loop rest (insert core seen) (unique_cores @ [core])
      else unique_loop rest seen unique_cores)"

text \<open>The body of the \<^verbatim>\<open>try\<close> block for one node directory.\<close>

definition read_node :: "sysfs \<Rightarrow> int list \<Rightarrow> string \<Rightarrow> int \<Rightarrow> error + NodeInfo" where
  "read_node fs memory_nodes node_dir node_id =
     (case read_text fs (node_path @ [node_dir, ''cpulist'']) of
        Inl e \<Rightarrow> Inl (OSError e)
      | Inr cpus_data \<Rightarrow>
     (case parse_cpulist (py_strip cpus_data) of
        Inl e \<Rightarrow> Inl e
      | Inr cpus \<Rightarrow>
     (case read_text fs (node_path @ [node_dir, ''distance'']) of
        Inl e \<Rightarrow> Inl (OSError e)
      | Inr text \<Rightarrow>
     (case py_ints (py_split_ws (py_strip text)) of
        Inl e \<Rightarrow> Inl e
      | Inr distances \<Rightarrow>
     (case collect_cores fs cpus [] of
        Inl e \<Rightarrow> Inl e
      | Inr cores \<Rightarrow>
          Inr \<lparr>id' = node_id, memory = (node_id \<in> set memory_nodes),
               cores_list = unique_loop cores {} [], distance = distances\<rparr>)))))"

text \<open>
  \<^verbatim>\<open>for node_dir in node_dirs\<close>: \<^verbatim>\<open>int(node_dir.name[4:])\<close> stands before the
  \<^verbatim>\<open>try\<close>; every \<^verbatim>\<open>OSError\<close> and \<^verbatim>\<open>ValueError\<close> of the body is caught, printed as a
  warning, and the node is skipped.
\<close>

fun nodes_loop ::
  "sysfs \<Rightarrow> int list \<Rightarrow> string list \<Rightarrow> message list \<times> NodeInfo list \<Rightarrow>
   message list \<times> (error + NodeInfo list)"
where
  "nodes_loop fs memory_nodes [] (log, nodes) = (log, Inr nodes)"
| "nodes_loop fs memory_nodes (node_dir # rest) (log, nodes) =
     (case py_int (drop 4 node_dir) of
        None \<Rightarrow> (log, Inl ValueError)
      | Some node_id \<Rightarrow>
          (case read_node fs memory_nodes node_dir node_id of
             Inl e \<Rightarrow> nodes_loop fs memory_nodes rest (log @ [WarnNode node_id], nodes)
           | Inr node_info \<Rightarrow> nodes_loop fs memory_nodes rest (log, nodes @ [node_info])))"

text \<open>
  \<^verbatim>\<open>get_nodes_info()\<close>: the set of memory nodes (a read failure is a warning and the
  empty set, a parse failure is not caught), the node directories (a failure to list them
  prints an error and returns the empty list), the loop, and \<^verbatim>\<open>nodes.sort(key=id)\<close>.
\<close>

definition get_nodes_info :: "sysfs \<Rightarrow> message list \<times> (error + NodeInfo list)" where
  "get_nodes_info fs =
     (case (case read_text fs (node_path @ [''has_memory'']) of
              Inl e \<Rightarrow> ([WarnMemoryNodes], Inr [])
            | Inr text \<Rightarrow> ([], py_ints (py_split (CHR '','') (py_strip text)))) of
        (log, Inl e) \<Rightarrow> (log, Inl e)
      | (log, Inr memory_nodes) \<Rightarrow>
          (case iterdir fs node_path of
             Inl e \<Rightarrow> (log @ [ErrorNodePath], Inr [])
           | Inr names \<Rightarrow>
               (case nodes_loop fs memory_nodes (filter is_node_name names) (log, []) of
                  (log', Inl e) \<Rightarrow> (log', Inl e)
                | (log', Inr nodes) \<Rightarrow> (log', Inr (sort_key id' nodes)))))"

section \<open>Cache optimizer\<close>

text \<open>
  The dictionaries \<^verbatim>\<open>{'core_tuple': ..., 'cache_id': ..., 'first_logical_id': ...}\<close> that
  \<^verbatim>\<open>optimize_cache_nodes\<close> collects and sorts.
\<close>

record cache_entry =
  core_tuple :: "int list"
  cache_id :: int
  first_logical_id :: int

text \<open>
  \<^verbatim>\<open>for core_tuple in node.cores_list\<close>: an empty tuple is skipped, so is a tuple whose
  cache-id list is empty or has no index \<^verbatim>\<open>cache_level\<close>; a \<^verbatim>\<open>ValueError\<close> of
  \<^verbatim>\<open>_get_cache_info\<close> is not caught.
\<close>

fun cores_with_cache ::
  "sysfs \<Rightarrow> int \<Rightarrow> int list list \<Rightarrow> cache_entry list \<Rightarrow> error + cache_entry list"
where
  "cores_with_cache fs cache_level [] entries = Inr entries"
| "cores_with_cache fs cache_level (core # rest) entries =
     (if core = [] then cores_with_cache fs cache_level rest entries
      else case get_cache_info fs (hd core) of
             Inl e \<Rightarrow> Inl e
           | Inr cache_ids \<Rightarrow>
               if cache_ids = [] \<or> int (length cache_ids) \<le> cache_level
               then cores_with_cache fs cache_level rest entries
               else cores_with_cache fs cache_level rest
                      (entries @ [\<lparr>core_tuple = core,
                                   cache_id = cache_ids ! nat cache_level,
                                   first_logical_id = hd core\<rparr>]))"

text \<open>
  \<^verbatim>\<open>optimize_cache_nodes(node, cache_level)\<close>; \<^verbatim>\<open>list.sort\<close> is stable and compares the
  key tuples lexicographically.
\<close>

definition optimize_cache_nodes :: "sysfs \<Rightarrow> NodeInfo \<Rightarrow> int \<Rightarrow> error + NodeInfo" where
  "optimize_cache_nodes fs node cache_level =
     (if cache_level < 0 then Inr node
      else case cores_with_cache fs cache_level (cores_list node) [] of
             Inl e \<Rightarrow> Inl e
           | Inr entries \<Rightarrow>
               Inr (node\<lparr>cores_list :=
                      map core_tuple
                        (sort_key (\<lambda>x. (cache_id x, first_logical_id x)) entries)\<rparr>))"

section \<open>Cluster builder\<close>

text \<open>
  \<^verbatim>\<open>xs[i]\<close> on a list of length \<open>n\<close>: the positions \<open>0\<close> to \<open>n - 1\<close>, the
  positions \<open>- n\<close> to \<open>- 1\<close> as aliases of them, and \<^verbatim>\<open>IndexError\<close> elsewhere.
\<close>

definition py_index :: "'a list \<Rightarrow> int \<Rightarrow> error + 'a" where
  "py_index xs i =
     (if 0 \<le> i \<and> i < int (length xs) then Inr (xs ! nat i)
      else if i < 0 \<and> - int (length xs) \<le> i then Inr (xs ! nat (int (length xs) + i))
      else Inl IndexError)"

text \<open>
  The scan of the memory nodes for one node. The state is \<^verbatim>\<open>(min_dist, closest_mem_id)\<close>;
  \<^verbatim>\<open>min_dist\<close> starts as \<^verbatim>\<open>float('inf')\<close>, which is \<open>None\<close> here, and
  \<^verbatim>\<open>closest_mem_id\<close> as \<^verbatim>\<open>None\<close>. The keys \<^verbatim>\<open>str(mem_node.id)\<close> of the dictionary are
  represented by the ids themselves (\<^verbatim>\<open>str\<close> is injective on integers).
\<close>

fun closest_memory ::
  "NodeInfo \<Rightarrow> NodeInfo list \<Rightarrow> int option \<times> int option \<Rightarrow> error + int option \<times> int option"
where
  "closest_memory node [] st = Inr st"
| "closest_memory node (mem_node # rest) (min_dist, closest_mem_id) =
     (if id' mem_node < int (length (distance node))
      then case py_index (distance node) (id' mem_node) of
             Inl e \<Rightarrow> Inl e
           | Inr dist \<Rightarrow>
               if (case min_dist of None \<Rightarrow> True | Some m \<Rightarrow> dist < m)
               then closest_memory node rest (Some dist, Some (id' mem_node))
               else closest_memory node rest (min_dist, closest_mem_id)
      else closest_memory node rest (min_dist, closest_mem_id))"

text \<open>
  \<^verbatim>\<open>clusters = {str(mem_node.id): [mem_node] for mem_node in memory_nodes}\<close>: a
  dictionary keeps the insertion order of its keys, and a key set again keeps its place.
\<close>

definition seed_clusters :: "NodeInfo list \<Rightarrow> (int \<times> NodeInfo list) list" where
  "seed_clusters memory_nodes = fold (\<lambda>mem_node. AList.update (id' mem_node) [mem_node]) memory_nodes []"

text \<open>
  \<^verbatim>\<open>for node in nodes: if node.memory: continue; ...;\<close>
  \<^verbatim>\<open>if closest_mem_id: clusters[closest_mem_id].append(node)\<close>. A key is a non-empty
  string, so the test is whether a memory node was chosen; a chosen key is always
  present.
\<close>

fun assign_nodes ::
  "NodeInfo list \<Rightarrow> NodeInfo list \<Rightarrow> (int \<times> NodeInfo list) list \<Rightarrow>
   error + (int \<times> NodeInfo list) list"
where
  "assign_nodes memory_nodes [] clusters = Inr clusters"
| "assign_nodes memory_nodes (node # rest) clusters =
     (if memory node then assign_nodes memory_nodes rest clusters
      else case closest_memory node memory_nodes (None, None) of
             Inl e \<Rightarrow> Inl e
           | Inr (min_dist, closest_mem_id) \<Rightarrow>
               (case closest_mem_id of
                  None \<Rightarrow> assign_nodes memory_nodes rest clusters
                | Some k \<Rightarrow>
                    assign_nodes memory_nodes rest
                      (AList.map_entry k (\<lambda>cluster. cluster @ [node]) clusters)))"

text \<open>
  The sort key of a member \<open>x\<close> of the cluster of \<open>memory_node\<close>:
  \<^verbatim>\<open>x.distance[memory_node.id] if memory_node.id < len(x.distance) else float('inf')\<close>.
  A finite key \<open>d\<close> is \<open>(False, d)\<close>, the infinite one \<open>(True, 0)\<close>, compared
  lexicographically.
\<close>

definition member_key :: "NodeInfo \<Rightarrow> NodeInfo \<Rightarrow> error + bool \<times> int" where
  "member_key memory_node x =
     (if id' memory_node < int (length (distance x))
      then case py_index (distance x) (id' memory_node) of
             Inl e \<Rightarrow> Inl e
           | Inr d \<Rightarrow> Inr (False, d)
      else Inr (True, 0))"

fun member_keys :: "NodeInfo \<Rightarrow> NodeInfo list \<Rightarrow> error + ((bool \<times> int) \<times> NodeInfo) list" where
  "member_keys memory_node [] = Inr []"
| "member_keys memory_node (x # xs) =
     (case member_key memory_node x of
        Inl e \<Rightarrow> Inl e
      | Inr k \<Rightarrow>
          (case member_keys memory_node xs of
             Inl e \<Rightarrow> Inl e
           | Inr ks \<Rightarrow> Inr ((k, x) # ks)))"

text \<open>
  \<^verbatim>\<open>if len(cluster) <= 1: continue\<close>, else
  \<^verbatim>\<open>cluster[1:] = sorted(cluster[1:], key=...)\<close> (a stable sort).
\<close>

definition sort_cluster :: "NodeInfo list \<Rightarrow> error + NodeInfo list" where
  "sort_cluster cluster =
     (if length cluster \<le> 1 then Inr cluster
      else case member_keys (hd cluster) (tl cluster) of
             Inl e \<Rightarrow> Inl e
           | Inr ks \<Rightarrow> Inr (hd cluster # map snd (sort_key fst ks)))"

text \<open>A loop whose body can raise: the first exception ends it.\<close>

fun map_result :: "('a \<Rightarrow> error + 'b) \<Rightarrow> 'a list \<Rightarrow> error + 'b list" where
  "map_result f [] = Inr []"
| "map_result f (x # xs) =
     (case f x of
        Inl e \<Rightarrow> Inl e
      | Inr y \<Rightarrow> (case map_result f xs of Inl e \<Rightarrow> Inl e | Inr ys \<Rightarrow> Inr (y # ys)))"

text \<open>
  \<^verbatim>\<open>get_clusters(nodes=None, optimize_cache_level=-1)\<close>. The cache optimizer replaces the
  core list of a node object in place; a node object that occurs twice is optimized
  twice, which gives what one optimization gives, so nodes are values here.
\<close>

definition get_clusters ::
  "sysfs \<Rightarrow> NodeInfo list option \<Rightarrow> int \<Rightarrow> message list \<times> (error + NodeInfo list list)"
where
  "get_clusters fs nodes optimize_cache_level =
     (case (case nodes of None \<Rightarrow> get_nodes_info fs | Some ns \<Rightarrow> ([], Inr ns)) of
        (log, Inl e) \<Rightarrow> (log, Inl e)
      | (log, Inr nodes) \<Rightarrow>
          if nodes = [] then (log, Inr [])
          else let memory_nodes = filter memory nodes in
            if memory_nodes = [] then (log @ [WarnNoMemoryNodes], Inr [nodes])
            else case assign_nodes memory_nodes nodes (seed_clusters memory_nodes) of
                   Inl e \<Rightarrow> (log, Inl e)
                 | Inr clusters \<Rightarrow>
                     (case map_result sort_cluster (map snd clusters) of
                        Inl e \<Rightarrow> (log, Inl e)
                      | Inr ordered \<Rightarrow>
                          if 0 \<le> optimize_cache_level
                          then (log, map_result
                                  (map_result (\<lambda>node. optimize_cache_nodes fs node optimize_cache_level))
                                  ordered)
                          else (log, Inr ordered)))"

section \<open>Pinning generators (class CPUPinningGenerator)\<close>

text \<open>
  The generator expression
  \<^verbatim>\<open>len(core) for cluster in clusters for node in cluster for core in node.cores_list\<close>
  enumerates the core tuples cluster by cluster, node by node.
\<close>

definition all_cores :: "NodeInfo list list \<Rightarrow> int list list" where
  "all_cores clusters = concat (map cores_list (concat clusters))"

text \<open>\<^verbatim>\<open>max(...)\<close> of an empty sequence raises \<^verbatim>\<open>ValueError\<close>.\<close>

definition py_max :: "nat list \<Rightarrow> error + nat" where
  "py_max xs = (case xs of [] \<Rightarrow> Inl ValueError | x # r \<Rightarrow> Inr (fold max r x))"

text \<open>
  The innermost statement of both generators:
  \<^verbatim>\<open>if smt_pos < len(core): cpu_list.append(core[smt_pos])\<close>.
\<close>

definition append_smt :: "nat \<Rightarrow> int list \<Rightarrow> int list \<Rightarrow> int list" where
  "append_smt smt_pos core cpu_list =
     (if smt_pos < length core then cpu_list @ [core ! smt_pos] else cpu_list)"

text \<open>\<^verbatim>\<open>for core in node.cores_list: ...\<close>\<close>

definition visit_node :: "nat \<Rightarrow> NodeInfo \<Rightarrow> int list \<Rightarrow> int list" where
  "visit_node smt_pos node cpu_list = fold (append_smt smt_pos) (cores_list node) cpu_list"

text \<open>\<^verbatim>\<open>for node in cluster: ...\<close> and \<^verbatim>\<open>for cluster in clusters: ...\<close> of
  \<^verbatim>\<open>cluster_first_pinning\<close>.\<close>

definition cf_cluster :: "nat \<Rightarrow> NodeInfo list \<Rightarrow> int list \<Rightarrow> int list" where
  "cf_cluster smt_pos cluster cpu_list = fold (visit_node smt_pos) cluster cpu_list"

definition cf_smt :: "NodeInfo list list \<Rightarrow> nat \<Rightarrow> int list \<Rightarrow> int list" where
  "cf_smt clusters smt_pos cpu_list = fold (cf_cluster smt_pos) clusters cpu_list"

text \<open>
  \<^verbatim>\<open>cluster_first_pinning(clusters)\<close>: the guard
  \<^verbatim>\<open>if not clusters or not clusters[0] or not clusters[0][0].cores_list: return []\<close>,
  then \<^verbatim>\<open>max_smt\<close>, then the loop over \<^verbatim>\<open>range(max_smt)\<close>.
\<close>

definition cluster_first_pinning :: "NodeInfo list list \<Rightarrow> error + int list" where
  "cluster_first_pinning clusters =
     (if clusters = [] \<or> hd clusters = [] \<or> cores_list (hd (hd clusters)) = [] then Inr []
      else case py_max (map length (all_cores clusters)) of
             Inl e \<Rightarrow> Inl e
           | Inr max_smt \<Rightarrow> Inr (fold (cf_smt clusters) [0..<max_smt] []))"

subsection \<open>The iteration order of the specification\<close>

text \<open>
  \<open>S\<close>, the maximum SMT width across every core tuple of every node of every cluster
  (0 when there is no core tuple at all).
\<close>

definition smt_width :: "NodeInfo list list \<Rightarrow> nat" where
  "smt_width clusters = fold max (map length (all_cores clusters)) 0"

text \<open>The ids that one node contributes at one SMT position.\<close>

definition node_slot :: "nat \<Rightarrow> NodeInfo \<Rightarrow> int list" where
  "node_slot p node = map (\<lambda>t. t ! p) (filter (\<lambda>t. p < length t) (cores_list node))"

text \<open>
  The sequence the specification describes for cluster-first pinning: \<open>smt_pos\<close>
  outermost, then the clusters, then the nodes of the cluster, then the core tuples of
  the node.
\<close>

definition cluster_first_spec :: "NodeInfo list list \<Rightarrow> int list" where
  "cluster_first_spec clusters =
     concat (map (\<lambda>p. concat (map (\<lambda>cluster. concat (map (node_slot p) cluster)) clusters))
                 [0..<smt_width clusters])"

text \<open>The entries of one SMT position, over all clusters.\<close>

definition smt_entries :: "NodeInfo list list \<Rightarrow> nat \<Rightarrow> int list" where
  "smt_entries clusters p = concat (map (\<lambda>cluster. concat (map (node_slot p) cluster)) clusters)"

text \<open>Every node referenced by the clusters has at least one non-empty core tuple.\<close>

definition nodes_have_cores :: "NodeInfo list list \<Rightarrow> bool" where
  "nodes_have_cores clusters =
     list_all (\<lambda>node. list_ex (\<lambda>t. t \<noteq> []) (cores_list node)) (concat clusters)"

subsection \<open>Ping-pong pinning\<close>

text \<open>
  The loop state of \<^verbatim>\<open>ping_pong_pinning\<close> is the pair
  \<^verbatim>\<open>(cluster_positions, cpu_list)\<close>. The innermost \<^verbatim>\<open>while\<close> processes up to
  \<^verbatim>\<open>nodes_per_round\<close> nodes of one cluster:
  \<^verbatim>\<open>while nodes_processed < nodes_per_round and cluster_positions[cluster_idx] < len(cluster)\<close>.
\<close>

function pp_inner ::
  "int \<Rightarrow> nat \<Rightarrow> NodeInfo list \<Rightarrow> nat \<Rightarrow> int \<Rightarrow> nat list \<times> int list \<Rightarrow> nat list \<times> int list"
where
  "pp_inner nodes_per_round smt_pos cluster cluster_idx nodes_processed (cluster_positions, cpu_list) =
     (if nodes_processed < nodes_per_round \<and> cluster_positions ! cluster_idx < length cluster
      then pp_inner nodes_per_round smt_pos cluster cluster_idx (nodes_processed + 1)
             (cluster_positions[cluster_idx := cluster_positions ! cluster_idx + 1],
              visit_node smt_pos (cluster ! (cluster_positions ! cluster_idx)) cpu_list)
      else (cluster_positions, cpu_list))"
  by pat_completeness auto
termination
  by (relation "measure (\<lambda>(npr, _, _, _, processed, _). nat (npr - processed))") auto

text \<open>\<^verbatim>\<open>for cluster_idx, cluster in enumerate(clusters): nodes_processed = 0; while ...\<close>\<close>

definition pp_round ::
  "int \<Rightarrow> nat \<Rightarrow> NodeInfo list list \<Rightarrow> nat list \<times> int list \<Rightarrow> nat list \<times> int list"
where
  "pp_round nodes_per_round smt_pos clusters st =
     fold (\<lambda>(cluster_idx, cluster). pp_inner nodes_per_round smt_pos cluster cluster_idx 0)
          (enumerate 0 clusters) st"

text \<open>\<^verbatim>\<open>any(pos < len(cluster) for pos, cluster in zip(cluster_positions, clusters))\<close>\<close>

definition pp_pending :: "NodeInfo list list \<Rightarrow> nat list \<Rightarrow> bool" where
  "pp_pending clusters cluster_positions =
     list_ex (\<lambda>(pos, cluster). pos < length cluster) (zip cluster_positions clusters)"

text \<open>
  The outer \<^verbatim>\<open>while any(...)\<close> loop. Nothing in its text bounds the number of rounds
  (with \<^verbatim>\<open>nodes_per_round <= 0\<close> it would never end), so it is a partial function:
  \<open>None\<close> is a loop that does not return.
\<close>

partial_function (option) pp_while ::
  "int \<Rightarrow> nat \<Rightarrow> NodeInfo list list \<Rightarrow> nat list \<times> int list \<Rightarrow> (nat list \<times> int list) option"
where
  "pp_while nodes_per_round smt_pos clusters st =
     (if pp_pending clusters (fst st)
      then pp_while nodes_per_round smt_pos clusters (pp_round nodes_per_round smt_pos clusters st)
      else Some st)"

declare pp_while.simps [code]

text \<open>
  \<^verbatim>\<open>for smt_pos in range(max_smt): cluster_positions = [0] * len(clusters); while ...\<close>
\<close>

fun pp_smt :: "int \<Rightarrow> NodeInfo list list \<Rightarrow> nat list \<Rightarrow> int list \<Rightarrow> int list option" where
  "pp_smt nodes_per_round clusters [] cpu_list = Some cpu_list"
| "pp_smt nodes_per_round clusters (smt_pos # rest) cpu_list =
     (case pp_while nodes_per_round smt_pos clusters (replicate (length clusters) 0, cpu_list) of
        None \<Rightarrow> None
      | Some st \<Rightarrow> pp_smt nodes_per_round clusters rest (snd st))"

text \<open>
  \<^verbatim>\<open>ping_pong_pinning(clusters, nodes_per_round)\<close>: the guard
  \<^verbatim>\<open>if not clusters or nodes_per_round <= 0: return []\<close>, then \<^verbatim>\<open>max_smt\<close> (whose
  \<^verbatim>\<open>max\<close> raises on an empty sequence), then the iteration.
\<close>

definition ping_pong_pinning :: "NodeInfo list list \<Rightarrow> int \<Rightarrow> (error + int list) option" where
  "ping_pong_pinning clusters nodes_per_round =
     (if clusters = [] \<or> nodes_per_round \<le> 0 then Some (Inr [])
      else case py_max (map length (all_cores clusters)) of
             Inl e \<Rightarrow> Some (Inl e)
           | Inr max_smt \<Rightarrow> map_option Inr (pp_smt nodes_per_round clusters [0..<max_smt] []))"

subsection \<open>The rounds of the specification\<close>

text \<open>
  In round \<open>r\<close> a cluster's cursor stands at \<open>r * k\<close> (or at the end of the cluster) and
  advances by up to \<open>k\<close> nodes: the nodes visited are the next \<open>k\<close> ones, fewer near the
  end.
\<close>

definition round_nodes :: "nat \<Rightarrow> nat \<Rightarrow> NodeInfo list \<Rightarrow> NodeInfo list" where
  "round_nodes k r cluster = take k (drop (r * k) cluster)"

text \<open>The number of rounds until every cursor has reached the end of its node list.\<close>

definition rounds_needed :: "nat \<Rightarrow> NodeInfo list list \<Rightarrow> nat" where
  "rounds_needed k clusters = fold max (map (\<lambda>cluster. (length cluster + k - 1) div k) clusters) 0"

text \<open>The node visit order for one SMT slot: round by round, clusters in given order.\<close>

definition ping_pong_visit :: "nat \<Rightarrow> NodeInfo list list \<Rightarrow> NodeInfo list" where
  "ping_pong_visit k clusters =
     concat (map (\<lambda>r. concat (map (round_nodes k r) clusters)) [0..<rounds_needed k clusters])"

text \<open>The sequence the specification describes for ping-pong pinning.\<close>

definition ping_pong_spec :: "NodeInfo list list \<Rightarrow> nat \<Rightarrow> int list" where
  "ping_pong_spec clusters k =
     concat (map (\<lambda>p. concat (map (node_slot p) (ping_pong_visit k clusters)))
                 [0..<smt_width clusters])"


text \<open>The cursor of a cluster after \<open>r\<close> rounds, and what round \<open>r\<close> appends.\<close>

definition cursor :: "nat \<Rightarrow> nat \<Rightarrow> NodeInfo list \<Rightarrow> nat" where
  "cursor k r cluster = min (length cluster) (r * k)"

definition round_entries :: "nat \<Rightarrow> nat \<Rightarrow> nat \<Rightarrow> NodeInfo list list \<Rightarrow> int list" where
  "round_entries p k r clusters =
     concat (map (\<lambda>cluster. concat (map (node_slot p) (round_nodes k r cluster))) clusters)"

text \<open>
  A core tuple is kept at a cache level when it is non-empty and the cache-id list of its
  first logical id has an entry at that level; its key is that entry, then its first id.
\<close>

definition kept_at_level :: "sysfs \<Rightarrow> int \<Rightarrow> int list \<Rightarrow> bool" where
  "kept_at_level fs cache_level core =
     (core \<noteq> [] \<and>
      (case get_cache_info fs (hd core) of
         Inl e \<Rightarrow> False
       | Inr cache_ids \<Rightarrow> cache_level < int (length cache_ids)))"

definition level_key :: "sysfs \<Rightarrow> int \<Rightarrow> int list \<Rightarrow> int \<times> int" where
  "level_key fs cache_level core =
     (case get_cache_info fs (hd core) of
        Inl e \<Rightarrow> (0, hd core)
      | Inr cache_ids \<Rightarrow> (cache_ids ! nat cache_level, hd core))"

text \<open>The lookup of a core tuple's cache ids raises.\<close>

definition cache_lookup_raises :: "sysfs \<Rightarrow> int list \<Rightarrow> bool" where
  "cache_lookup_raises fs core =
     (core \<noteq> [] \<and> (case get_cache_info fs (hd core) of Inl e \<Rightarrow> True | Inr cache_ids \<Rightarrow> False))"

definition level_entry :: "sysfs \<Rightarrow> int \<Rightarrow> int list \<Rightarrow> cache_entry" where
  "level_entry fs cache_level core =
     \<lparr>core_tuple = core, cache_id = fst (level_key fs cache_level core),
      first_logical_id = hd core\<rparr>"


section \<open>Example trees\<close>

text \<open>
  A tree with two nodes: node 0 has memory and the CPUs 0 to 3, of which 0 and 2, and 1
  and 3, are SMT siblings; the sibling list of CPU 3 cannot be read. Node 1 has no CPU.
  CPU 0 has two cache levels, CPU 1 one.
\<close>

definition example_tree :: sysfs where
  "example_tree = \<lparr>
     read_text = (\<lambda>p.
       if p = node_path @ [''has_memory''] then Inr ''0''
       else if p = node_path @ [''node0'', ''cpulist''] then Inr ''0-3''
       else if p = node_path @ [''node0'', ''distance''] then Inr ''10 20''
       else if p = node_path @ [''node1'', ''cpulist''] then Inr []
       else if p = node_path @ [''node1'', ''distance''] then Inr ''20 10''
       else if p = cpu_path @ [''cpu0'', ''topology'', ''thread_siblings_list''] then Inr ''0,2''
       else if p = cpu_path @ [''cpu1'', ''topology'', ''thread_siblings_list''] then Inr ''1,3''
       else if p = cpu_path @ [''cpu2'', ''topology'', ''thread_siblings_list''] then Inr ''0,2''
       else if p = cpu_path @ [''cpu3'', ''topology'', ''thread_siblings_list''] then Inl PermissionError
       else if p = cpu_path @ [''cpu0'', ''cache'', ''index0'', ''id''] then Inr ''7''
       else if p = cpu_path @ [''cpu0'', ''cache'', ''index1'', ''id''] then Inr ''3''
       else if p = cpu_path @ [''cpu1'', ''cache'', ''index0'', ''id''] then Inr ''2''
       else Inl FileNotFoundError),
     iterdir = (\<lambda>p.
       if p = node_path then Inr [''node1'', ''has_memory'', ''node0'']
       else if p = cpu_path @ [''cpu0'', ''cache''] then Inr [''index1'', ''index0'', ''uevent'']
       else if p = cpu_path @ [''cpu1'', ''cache''] then Inr [''index0'']
       else Inl FileNotFoundError) \<rparr>"

text \<open>
  A tree in which the sibling list of CPU 0 is an empty file and the id of its first cache
  is not a number.
\<close>

definition malformed_tree :: sysfs where
  "malformed_tree = \<lparr>
     read_text = (\<lambda>p.
       if p = cpu_path @ [''cpu0'', ''topology'', ''thread_siblings_list''] then Inr []
       else if p = cpu_path @ [''cpu0'', ''cache'', ''index0'', ''id''] then Inr ''x''
       else Inl FileNotFoundError),
     iterdir = (\<lambda>p.
       if p = cpu_path @ [''cpu0'', ''cache''] then Inr [''index0'']
       else Inl FileNotFoundError) \<rparr>"

text \<open>
  A node has a distance entry at the node-id index of an anchor; the entry itself.
\<close>

definition has_entry :: "NodeInfo \<Rightarrow> NodeInfo \<Rightarrow> bool" where
  "has_entry node anchor = (0 \<le> id' anchor \<and> id' anchor < int (length (distance node)))"

definition entry :: "NodeInfo \<Rightarrow> NodeInfo \<Rightarrow> int" where
  "entry node anchor = distance node ! nat (id' anchor)"

text \<open>
  The anchor that a scan of the anchors in their order holds after each step: the first
  one with an entry, replaced whenever a later anchor has a strictly smaller entry.
\<close>

fun scan_best :: "NodeInfo \<Rightarrow> NodeInfo list \<Rightarrow> NodeInfo option \<Rightarrow> NodeInfo option" where
  "scan_best node [] best = best"
| "scan_best node (m # ms) best =
     (if has_entry node m \<and> (case best of None \<Rightarrow> True | Some a \<Rightarrow> entry node m < entry node a)
      then scan_best node ms (Some m)
      else scan_best node ms best)"

text \<open>The key that the scan of the anchors chooses for a node, if any.\<close>

definition chosen :: "NodeInfo list \<Rightarrow> NodeInfo \<Rightarrow> int option" where
  "chosen ms node = map_option id' (scan_best node ms None)"

text \<open>The cluster of key \<open>k\<close> after the assignment loop: its seed, then the nodes that chose \<open>k\<close>.\<close>

definition assigned :: "NodeInfo list \<Rightarrow> NodeInfo list \<Rightarrow> int \<times> NodeInfo list \<Rightarrow> NodeInfo list" where
  "assigned ms nodes kc =
     snd kc @ filter (\<lambda>n. \<not> memory n \<and> chosen ms n = Some (fst kc)) nodes"

section \<open>CPU topology builder\<close>

record CPUInfo =
  logical_id :: int
  core_id :: int
  siblings :: "int list"
  numa_node :: "int option"
  cache_ids :: "int list"
  package_id :: int

text \<open>
  A single-value read, \<^verbatim>\<open>int(f.read().strip())\<close>, as \<^verbatim>\<open>get_cpu_info\<close> does it for
  \<^verbatim>\<open>core_id\<close> and \<^verbatim>\<open>physical_package_id\<close>: it raises what \<^verbatim>\<open>open\<close> or \<^verbatim>\<open>int\<close> raise.
\<close>

definition read_int :: "sysfs \<Rightarrow> string list \<Rightarrow> error + int" where
  "read_int fs path =
     (case read_text fs path of
        Inl e \<Rightarrow> Inl (OSError e)
      | Inr text \<Rightarrow> (case py_int (py_strip text) of None \<Rightarrow> Inl ValueError | Some v \<Rightarrow> Inr v))"

text \<open>
  The body of the \<^verbatim>\<open>try\<close> block of \<^verbatim>\<open>get_cpu_info\<close> for one entry \<^verbatim>\<open>cpu<N>\<close>; the
  sibling list is read here with \<^verbatim>\<open>[int(x) for x in ... .split(',') if x.strip()]\<close>.
\<close>

definition is_cpu_name :: "string \<Rightarrow> bool" where
  "is_cpu_name name = (take 3 name = ''cpu'' \<and> isdigit (drop 3 name))"

definition read_cpu :: "sysfs \<Rightarrow> string \<Rightarrow> int \<Rightarrow> error + CPUInfo" where
  "read_cpu fs cpu_entry cpu_nbr =
     (let topology_dir = cpu_path @ [cpu_entry, ''topology''] in
      case read_text fs (topology_dir @ [''thread_siblings_list'']) of
        Inl e \<Rightarrow> Inl (OSError e)
      | Inr text \<Rightarrow>
     (case py_ints (filter (\<lambda>x. py_strip x \<noteq> []) (py_split (CHR '','') (py_strip text))) of
        Inl e \<Rightarrow> Inl e
      | Inr sibs \<Rightarrow>
     (case read_int fs (topology_dir @ [''core_id'']) of
        Inl e \<Rightarrow> Inl e
      | Inr core \<Rightarrow>
     (case read_int fs (topology_dir @ [''physical_package_id'']) of
        Inl e \<Rightarrow> Inl e
      | Inr package \<Rightarrow>
     (case get_cache_info fs cpu_nbr of
        Inl e \<Rightarrow> Inl e
      | Inr caches \<Rightarrow>
     (case get_node_of_cpu fs cpu_nbr of
        Inl e \<Rightarrow> Inl e
      | Inr node \<Rightarrow>
          Inr \<lparr>logical_id = cpu_nbr, core_id = core, siblings = sibs, numa_node = node,
               cache_ids = caches, package_id = package\<rparr>))))))"

text \<open>
  \<^verbatim>\<open>for cpu_entry in cpu_entries\<close>: \<^verbatim>\<open>int(cpu_entry.name[3:])\<close> stands before the
  \<^verbatim>\<open>try\<close>; \<^verbatim>\<open>except (IOError, FileNotFoundError, ValueError)\<close> prints a warning and
  goes on with the next entry.
\<close>

fun cpus_loop ::
  "sysfs \<Rightarrow> string list \<Rightarrow> message list \<times> CPUInfo list \<Rightarrow> message list \<times> (error + CPUInfo list)"
where
  "cpus_loop fs [] (log, cpu_list) = (log, Inr cpu_list)"
| "cpus_loop fs (cpu_entry # rest) (log, cpu_list) =
     (case py_int (drop 3 cpu_entry) of
        None \<Rightarrow> (log, Inl ValueError)
      | Some cpu_nbr \<Rightarrow>
          (case read_cpu fs cpu_entry cpu_nbr of
             Inl e \<Rightarrow> cpus_loop fs rest (log @ [WarnCpu cpu_entry], cpu_list)
           | Inr cpu_info \<Rightarrow> cpus_loop fs rest (log, cpu_list @ [cpu_info])))"

text \<open>\<^verbatim>\<open>get_cpu_info()\<close>\<close>

definition get_cpu_info :: "sysfs \<Rightarrow> message list \<times> (error + CPUInfo list)" where
  "get_cpu_info fs =
     (case iterdir fs cpu_path of
        Inl e \<Rightarrow> ([ErrorCpuPath], Inr [])
      | Inr names \<Rightarrow>
          (case cpus_loop fs (filter is_cpu_name names) ([], []) of
             (log, Inl e) \<Rightarrow> (log, Inl e)
           | (log, Inr cpu_list) \<Rightarrow> (log, Inr (sort_key logical_id cpu_list))))"

text \<open>
  The id that one cache directory yields: \<open>None\<close> when its \<^verbatim>\<open>id\<close> file cannot be read or
  does not parse.
\<close>

definition cache_id_at :: "sysfs \<Rightarrow> string list \<Rightarrow> string \<Rightarrow> int option" where
  "cache_id_at fs cache_path cache_dir =
     (case read_text fs (cache_path @ [cache_dir, ''id'']) of
        Inl e \<Rightarrow> None
      | Inr text \<Rightarrow> py_int (py_strip text))"

text \<open>
  The cache directories whose \<^verbatim>\<open>id\<close> file the loop of \<^verbatim>\<open>_get_cache_info\<close> opens
  successfully: those before the first one that cannot be read.
\<close>

definition id_readable :: "sysfs \<Rightarrow> string list \<Rightarrow> string \<Rightarrow> bool" where
  "id_readable fs cache_path cache_dir =
     (case read_text fs (cache_path @ [cache_dir, ''id'']) of Inl e \<Rightarrow> False | Inr text \<Rightarrow> True)"

definition read_prefix :: "sysfs \<Rightarrow> string list \<Rightarrow> string list \<Rightarrow> string list" where
  "read_prefix fs cache_path cache_dirs = takeWhile (id_readable fs cache_path) cache_dirs"

text \<open>
  A tree in which the first cache directory of CPU 0 has no \<^verbatim>\<open>id\<close> file and the second
  an \<^verbatim>\<open>id\<close> that is not a number; CPU 1 has three cache directories, the second without
  an \<^verbatim>\<open>id\<close> file. The directory of CPUs lists \<^verbatim>\<open>cpu0\<close>, \<^verbatim>\<open>cpu1\<close> and an entry named
  \<^verbatim>\<open>cpu\<close> followed by the superscript two (code point 178).
\<close>

definition partial_cache_tree :: sysfs where
  "partial_cache_tree = \<lparr>
     read_text = (\<lambda>p.
       if p = cpu_path @ [''cpu0'', ''cache'', ''index1'', ''id''] then Inr ''x''
       else if p = cpu_path @ [''cpu1'', ''cache'', ''index0'', ''id''] then Inr ''4''
       else if p = cpu_path @ [''cpu1'', ''cache'', ''index2'', ''id''] then Inr ''9''
       else Inl FileNotFoundError),
     iterdir = (\<lambda>p.
       if p = cpu_path then Inr [''cpu0'', ''cpu1'', ''cpu'' @ [char_of (178 :: nat)]]
       else if p = cpu_path @ [''cpu0'', ''cache''] then Inr [''index0'', ''index1'']
       else if p = cpu_path @ [''cpu1'', ''cache''] then Inr [''index2'', ''index0'', ''index1'']
       else if p = cpu_path @ [''cpu2'', ''cache''] then Inr [''index'' @ [char_of (179 :: nat)]]
       else Inl FileNotFoundError) \<rparr>"

text \<open>
  The sibling lists read for the member CPUs of a node partition them: a list that was
  read and is not empty holds its own CPU, no id twice, and only member CPUs whose own
  list is the same list.
\<close>

definition siblings_consistent :: "sysfs \<Rightarrow> int list \<Rightarrow> bool" where
  "siblings_consistent fs cpus =
     list_all (\<lambda>c. case get_cpus_logical_ids fs c of
                     Inl e \<Rightarrow> True
                   | Inr s \<Rightarrow>
                       s = [] \<or>
                       (c \<in> set s \<and> distinct s \<and>
                        list_all (\<lambda>c'. c' \<in> set cpus \<and> get_cpus_logical_ids fs c' = Inr s) s))
       cpus"

text \<open>
  A tree with one node and the CPUs 0 to 2: 0 and 2 are SMT siblings, the sibling list of
  CPU 1 is missing.
\<close>

definition offline_cpu_tree :: sysfs where
  "offline_cpu_tree = \<lparr>
     read_text = (\<lambda>p.
       if p = node_path @ [''has_memory''] then Inr ''0''
       else if p = node_path @ [''node0'', ''cpulist''] then Inr ''0-2''
       else if p = node_path @ [''node0'', ''distance''] then Inr ''10''
       else if p = cpu_path @ [''cpu0'', ''topology'', ''thread_siblings_list''] then Inr ''0,2''
       else if p = cpu_path @ [''cpu2'', ''topology'', ''thread_siblings_list''] then Inr ''0,2''
       else Inl FileNotFoundError),
     iterdir = (\<lambda>p.
       if p = node_path then Inr [''node0'', ''has_memory'']
       else Inl FileNotFoundError) \<rparr>"

section \<open>Properties of the pinning generators\<close>

lemma fold_append_smt:
  "fold (append_smt p) cores acc = acc @ map (\<lambda>t. t ! p) (filter (\<lambda>t. p < length t) cores)"
  by (induction cores arbitrary: acc) (simp_all add: append_smt_def)

lemma visit_node_eq: "visit_node p node acc = acc @ node_slot p node"
  by (simp add: visit_node_def node_slot_def fold_append_smt)

lemma cf_cluster_eq: "cf_cluster p cluster acc = acc @ concat (map (node_slot p) cluster)"
  unfolding cf_cluster_def
  by (induction cluster arbitrary: acc) (simp_all add: visit_node_eq)

lemma cf_smt_eq: "cf_smt clusters p acc = acc @ smt_entries clusters p"
  unfolding cf_smt_def smt_entries_def
  by (induction clusters arbitrary: acc) (simp_all add: cf_cluster_eq)

lemma fold_cf_smt:
  "fold (cf_smt clusters) ps acc = acc @ concat (map (smt_entries clusters) ps)"
  by (induction ps arbitrary: acc) (simp_all add: cf_smt_eq)

lemma fold_max_ge: "fold max xs (a::nat) = max a (fold max xs 0)"
proof (induction xs arbitrary: a)
  case Nil
  show ?case by simp
next
  case (Cons x xs)
  have "fold max (x # xs) a = max (max x a) (fold max xs 0)"
    using Cons.IH [of "max x a"] by simp
  moreover have "fold max (x # xs) 0 = max x (fold max xs 0)"
    using Cons.IH [of x] by simp
  ultimately show ?case by (simp only: max.assoc max.left_commute)
qed

lemma py_max_smt_width:
  "all_cores clusters \<noteq> [] \<Longrightarrow>
   py_max (map length (all_cores clusters)) = Inr (smt_width clusters)"
  unfolding py_max_def smt_width_def
  by (cases "all_cores clusters") simp_all

lemma cluster_first_spec_eq:
  "cluster_first_spec clusters = concat (map (smt_entries clusters) [0..<smt_width clusters])"
  unfolding cluster_first_spec_def smt_entries_def ..

lemma cluster_first_run:
  "all_cores clusters \<noteq> [] \<Longrightarrow>
   (case py_max (map length (all_cores clusters)) of
      Inl e \<Rightarrow> Inl e
    | Inr max_smt \<Rightarrow> Inr (fold (cf_smt clusters) [0..<max_smt] []))
   = Inr (cluster_first_spec clusters)"
  by (simp add: py_max_smt_width fold_cf_smt cluster_first_spec_eq)

lemma all_cores_hd:
  assumes "clusters \<noteq> []" "hd clusters \<noteq> []" "cores_list (hd (hd clusters)) \<noteq> []"
  shows "all_cores clusters \<noteq> []"
proof -
  obtain c cs where c: "clusters = c # cs" using assms(1) by (cases clusters) auto
  obtain n ns where n: "c = n # ns" using assms(2) c by (cases c) auto
  show ?thesis using assms(3) c n by (simp add: all_cores_def)
qed

lemma upt_two: "1 < n \<Longrightarrow> [0..<n] = 0 # 1 # [2..<n]"
  by (simp add: upt_rec numeral_2_eq_2)

text \<open>
  Claim C1. A cluster is never empty: its anchor is at index 0. For every sequence of
  clusters in which every referenced node has at least one non-empty core tuple,
  \<^verbatim>\<open>cluster_first_pinning\<close> returns exactly the sequence of the specification:
  \<open>smt_pos\<close> from 0 to \<open>S - 1\<close> outermost, then clusters, nodes and core tuples in
  their given order, taking the \<open>smt_pos\<close>-th id of every tuple that is wide enough. In
  particular the entries of position 0 come first and those of position 1 right after.
\<close>

theorem cluster_first_pinning_order:
  assumes clusters: "[] \<notin> set clusters"
      and cores: "nodes_have_cores clusters"
  shows "cluster_first_pinning clusters = Inr (cluster_first_spec clusters) \<and>
         (1 < smt_width clusters \<longrightarrow>
            (\<exists>rest. cluster_first_spec clusters =
                smt_entries clusters 0 @ smt_entries clusters 1 @ rest))"
proof
  show "cluster_first_pinning clusters = Inr (cluster_first_spec clusters)"
  proof (cases "clusters = []")
    case True
    then show ?thesis
      by (simp add: cluster_first_pinning_def cluster_first_spec_def smt_width_def all_cores_def)
  next
    case False
    with clusters have ne: "hd clusters \<noteq> []" by (cases clusters) auto
    have "hd (hd clusters) \<in> set (concat clusters)"
      using False ne by (cases clusters; cases "hd clusters") auto
    with cores have "cores_list (hd (hd clusters)) \<noteq> []"
      by (fastforce simp: nodes_have_cores_def list_all_iff list_ex_iff)
    with False ne show ?thesis
      by (simp add: cluster_first_pinning_def cluster_first_run all_cores_hd)
  qed
  show "1 < smt_width clusters \<longrightarrow>
          (\<exists>rest. cluster_first_spec clusters =
              smt_entries clusters 0 @ smt_entries clusters 1 @ rest)"
    by (auto simp: cluster_first_spec_eq upt_two)
qed

theorem cluster_first_pinning_order_witness:
  "cluster_first_pinning
     [[\<lparr>id' = 0, memory = True, cores_list = [[0, 4], [1]], distance = [10, 20]\<rparr>],
      [\<lparr>id' = 1, memory = True, cores_list = [[2]], distance = [20, 10]\<rparr>]] = Inr [0, 1, 2, 4]"
  using cluster_first_pinning_order
    [of "[[\<lparr>id' = 0, memory = True, cores_list = [[0, 4], [1]], distance = [10, 20]\<rparr>],
      [\<lparr>id' = 1, memory = True, cores_list = [[2]], distance = [20, 10]\<rparr>]]"]
  by (simp add: nodes_have_cores_def cluster_first_spec_def smt_width_def all_cores_def
        node_slot_def upt_rec)

text \<open>
  Claim C10. For every non-empty sequence of clusters whose first cluster is non-empty and
  whose first cluster's first node has an empty core-tuple list,
  \<^verbatim>\<open>cluster_first_pinning\<close> returns the empty list, whatever cores the other nodes have.
\<close>

theorem cluster_first_pinning_first_node_empty:
  "clusters \<noteq> [] \<Longrightarrow> hd clusters \<noteq> [] \<Longrightarrow> cores_list (hd (hd clusters)) = [] \<Longrightarrow>
   cluster_first_pinning clusters = Inr []"
  by (simp add: cluster_first_pinning_def)

theorem cluster_first_pinning_first_node_empty_witness:
  "cluster_first_pinning
     [[\<lparr>id' = 0, memory = True, cores_list = [], distance = [10, 20]\<rparr>,
       \<lparr>id' = 1, memory = False, cores_list = [[0, 1]], distance = [20, 10]\<rparr>]] = Inr [] \<and>
   all_cores
     [[\<lparr>id' = 0, memory = True, cores_list = [], distance = [10, 20]\<rparr>,
       \<lparr>id' = 1, memory = False, cores_list = [[0, 1]], distance = [20, 10]\<rparr>]] = [[0, 1]]"
  using cluster_first_pinning_first_node_empty
    [of "[[\<lparr>id' = 0, memory = True, cores_list = [], distance = [10, 20]\<rparr>,
       \<lparr>id' = 1, memory = False, cores_list = [[0, 1]], distance = [20, 10]\<rparr>]]"]
  by (simp add: all_cores_def)

lemma pp_inner_eq:
  "cluster_idx < length ps \<Longrightarrow> 0 \<le> j \<Longrightarrow>
   pp_inner npr p cluster cluster_idx j (ps, cpu) =
     (ps[cluster_idx := min (max (ps ! cluster_idx) (length cluster)) (ps ! cluster_idx + nat (npr - j))],
      cpu @ concat (map (node_slot p) (take (nat (npr - j)) (drop (ps ! cluster_idx) cluster))))"
proof (induction npr p cluster cluster_idx j "(ps, cpu)" arbitrary: ps cpu rule: pp_inner.induct)
  case (1 npr p cluster idx j ps cpu)
  show ?case
  proof (cases "j < npr \<and> ps ! idx < length cluster")
    case True
    let ?pos = "ps ! idx"
    have len: "idx < length (ps[idx := ?pos + 1])" using "1.prems" by simp
    have nat_eq: "nat (npr - j) = Suc (nat (npr - (j + 1)))" using True "1.prems" by linarith
    have dr: "drop ?pos cluster = cluster ! ?pos # drop (Suc ?pos) cluster"
      using True by (simp add: Cons_nth_drop_Suc)
    have "pp_inner npr p cluster idx j (ps, cpu) =
          pp_inner npr p cluster idx (j + 1)
            (ps[idx := ?pos + 1], visit_node p (cluster ! ?pos) cpu)"
      using True by simp
    also have "\<dots> = ((ps[idx := ?pos + 1])[idx :=
                 min (max ((ps[idx := ?pos + 1]) ! idx) (length cluster))
                     ((ps[idx := ?pos + 1]) ! idx + nat (npr - (j + 1)))],
               visit_node p (cluster ! ?pos) cpu @
                 concat (map (node_slot p)
                   (take (nat (npr - (j + 1))) (drop ((ps[idx := ?pos + 1]) ! idx) cluster))))"
      using "1.hyps" [OF True len] "1.prems" by simp
    also have "\<dots> = (ps[idx := min (max ?pos (length cluster)) (?pos + nat (npr - j))],
                cpu @ concat (map (node_slot p) (take (nat (npr - j)) (drop ?pos cluster))))"
      using True "1.prems" by (simp add: nat_eq dr visit_node_eq max_def min_def)
    finally show ?thesis .
  next
    case False
    have pos: "min (max (ps ! idx) (length cluster)) (ps ! idx + nat (npr - j)) = ps ! idx"
      using False by (auto simp: max_def min_def)
    have nodes: "take (nat (npr - j)) (drop (ps ! idx) cluster) = []"
      using False by auto
    have "pp_inner npr p cluster idx j (ps, cpu) = (ps, cpu)"
      using False by auto
    then show ?thesis
      unfolding pos nodes by simp
  qed
qed

lemma pp_inner_round:
  assumes "length A = i"
  shows "pp_inner (int k) p c i 0 (A @ cursor k r c # B, cpu) =
           (A @ cursor k (Suc r) c # B, cpu @ concat (map (node_slot p) (round_nodes k r c)))"
proof -
  let ?ps = "A @ cursor k r c # B"
  have idx: "i < length ?ps" using assms by simp
  have at: "?ps ! i = cursor k r c" using assms by (simp add: nth_append)
  have pos: "min (max (cursor k r c) (length c)) (cursor k r c + nat (int k - 0)) = cursor k (Suc r) c"
    by (auto simp: cursor_def min_def max_def)
  have nodes: "take (nat (int k - 0)) (drop (cursor k r c) c) = round_nodes k r c"
    by (auto simp: cursor_def round_nodes_def min_def)
  have upd: "?ps[i := cursor k (Suc r) c] = A @ cursor k (Suc r) c # B"
    using assms by (simp add: list_update_append)
  show ?thesis
    using pp_inner_eq [OF idx, of 0 "int k" p c cpu]
    unfolding at pos nodes upd by simp
qed

lemma pp_round_fold:
  "length A = i \<Longrightarrow>
   fold (\<lambda>(cluster_idx, cluster). pp_inner (int k) p cluster cluster_idx 0)
        (enumerate i cs) (A @ map (cursor k r) cs, cpu) =
     (A @ map (cursor k (Suc r)) cs, cpu @ round_entries p k r cs)"
proof (induction cs arbitrary: A i cpu)
  case Nil
  show ?case by (simp add: round_entries_def)
next
  case (Cons c cs)
  have "length (A @ [cursor k (Suc r) c]) = Suc i" using Cons.prems by simp
  from Cons.IH [OF this] show ?case
    using pp_inner_round [OF Cons.prems, of k p c r "map (cursor k r) cs" cpu]
    by (simp add: round_entries_def)
qed

lemma pp_round_eq:
  "pp_round (int k) p clusters (map (cursor k r) clusters, cpu) =
     (map (cursor k (Suc r)) clusters, cpu @ round_entries p k r clusters)"
  unfolding pp_round_def using pp_round_fold [of "[]" 0 k p clusters r cpu] by simp

lemma fold_max_gr: "(r < fold max xs (0::nat)) = (\<exists>x\<in>set xs. r < x)"
proof (induction xs)
  case Nil
  show ?case by simp
next
  case (Cons x xs)
  have "fold max (x # xs) 0 = max x (fold max xs 0)"
    using fold_max_ge [of xs x] by simp
  then show ?case using Cons by auto
qed

lemma rounds_needed_gr:
  assumes "0 < k"
  shows "(r < rounds_needed k clusters) = (\<exists>c\<in>set clusters. r * k < length c)"
proof -
  have "(r < (n + k - 1) div k) = (r * k < n)" for n
  proof -
    have "(r < (n + k - 1) div k) = (Suc r \<le> (n + k - 1) div k)" by auto
    also have "\<dots> = (Suc r * k \<le> n + k - 1)"
      using assms by (simp only: less_eq_div_iff_mult_less_eq)
    also have "\<dots> = (r * k < n)" using assms by auto
    finally show ?thesis .
  qed
  then show ?thesis by (simp add: rounds_needed_def fold_max_gr)
qed

lemma pp_pending_cursor:
  assumes "0 < k"
  shows "pp_pending clusters (map (cursor k r) clusters) = (r < rounds_needed k clusters)"
proof -
  have "zip (map (cursor k r) clusters) clusters = map (\<lambda>c. (cursor k r c, c)) clusters"
    by (induction clusters) simp_all
  moreover have "(cursor k r c < length c) = (r * k < length c)" for c
    by (auto simp: cursor_def)
  ultimately show ?thesis
    by (simp add: pp_pending_def list_ex_iff rounds_needed_gr [OF assms])
qed

lemma pp_while_eq:
  assumes "0 < k"
  shows "r \<le> rounds_needed k clusters \<Longrightarrow>
         pp_while (int k) p clusters (map (cursor k r) clusters, cpu) =
           Some (map (cursor k (rounds_needed k clusters)) clusters,
                 cpu @ concat (map (\<lambda>r. round_entries p k r clusters)
                                 [r..<rounds_needed k clusters]))"
proof (induction "rounds_needed k clusters - r" arbitrary: r cpu)
  case 0
  then have r: "r = rounds_needed k clusters" by simp
  have "\<not> pp_pending clusters (map (cursor k r) clusters)"
    using pp_pending_cursor [OF assms, of clusters r] r by simp
  then show ?case
    by (subst pp_while.simps) (simp add: r)
next
  case (Suc n)
  then have lt: "r < rounds_needed k clusters" by simp
  then have pend: "pp_pending clusters (map (cursor k r) clusters)"
    using pp_pending_cursor [OF assms, of clusters r] by simp
  have n: "n = rounds_needed k clusters - Suc r" using Suc.hyps(2) by simp
  have le: "Suc r \<le> rounds_needed k clusters" using lt by simp
  have "pp_while (int k) p clusters (map (cursor k r) clusters, cpu) =
        pp_while (int k) p clusters
          (map (cursor k (Suc r)) clusters, cpu @ round_entries p k r clusters)"
    by (subst pp_while.simps) (simp add: pend pp_round_eq)
  also have "\<dots> = Some (map (cursor k (rounds_needed k clusters)) clusters,
                 (cpu @ round_entries p k r clusters) @
                   concat (map (\<lambda>r. round_entries p k r clusters)
                                 [Suc r..<rounds_needed k clusters]))"
    by (rule Suc.hyps(1) [OF n le])
  finally show ?case using lt by (simp add: upt_rec [of r])
qed

lemma concat_map_concat:
  "concat (map f (concat xss)) = concat (map (\<lambda>xs. concat (map f xs)) xss)"
  by (induction xss) simp_all

lemma round_entries_nodes:
  "round_entries p k r clusters =
   concat (map (node_slot p) (concat (map (round_nodes k r) clusters)))"
  by (simp add: round_entries_def concat_map_concat o_def)

lemma slot_entries:
  "concat (map (\<lambda>r. round_entries p k r clusters) rs) =
   concat (map (node_slot p) (concat (map (\<lambda>r. concat (map (round_nodes k r) clusters)) rs)))"
  by (simp add: round_entries_nodes concat_map_concat o_def)

lemma pp_smt_eq:
  assumes "0 < k"
  shows "pp_smt (int k) clusters ps cpu =
           Some (cpu @ concat (map (\<lambda>p. concat (map (node_slot p) (ping_pong_visit k clusters))) ps))"
proof (induction ps arbitrary: cpu)
  case Nil
  show ?case by simp
next
  case (Cons p ps)
  have start: "replicate (length clusters) 0 = map (cursor k 0) clusters"
    by (induction clusters) (simp_all add: cursor_def)
  have "pp_while (int k) p clusters (replicate (length clusters) 0, cpu) =
          Some (map (cursor k (rounds_needed k clusters)) clusters,
                cpu @ concat (map (node_slot p) (ping_pong_visit k clusters)))"
    unfolding start using pp_while_eq [OF assms, of 0 clusters p cpu]
    by (simp add: slot_entries ping_pong_visit_def)
  then show ?case using Cons.IH by simp
qed

lemma ping_pong_run:
  assumes "all_cores clusters \<noteq> []" "0 < npr"
  shows "ping_pong_pinning clusters npr = Some (Inr (ping_pong_spec clusters (nat npr)))"
proof -
  have ne: "clusters \<noteq> []" using assms(1) by (auto simp: all_cores_def)
  have k: "0 < nat npr" "int (nat npr) = npr" using assms(2) by simp_all
  show ?thesis
    using ne assms(2) pp_smt_eq [OF k(1), of clusters "[0..<smt_width clusters]" "[]"]
    by (simp add: ping_pong_pinning_def py_max_smt_width [OF assms(1)] k(2) ping_pong_spec_def)
qed

lemma ping_pong_two_by_two:
  "pp_while 1 p [[a, b], [c, d]] ([0, 0], []) =
     Some ([2, 2], node_slot p a @ node_slot p c @ node_slot p b @ node_slot p d)"
proof -
  have R: "rounds_needed 1 [[a, b], [c, d]] = 2"
    by (simp add: rounds_needed_def)
  have "pp_while (int 1) p [[a, b], [c, d]] (map (cursor 1 0) [[a, b], [c, d]], []) =
          Some (map (cursor 1 2) [[a, b], [c, d]],
                [] @ concat (map (\<lambda>r. round_entries p 1 r [[a, b], [c, d]]) [0..<2]))"
    using pp_while_eq [of 1 0 "[[a, b], [c, d]]" p "[]"] unfolding R by simp
  then show ?thesis
    by (simp add: cursor_def round_entries_def round_nodes_def upt_rec numeral_2_eq_2)
qed

text \<open>
  Claim C2. For every clusters input containing at least one core tuple and every positive
  \<^verbatim>\<open>nodes_per_round\<close>, \<^verbatim>\<open>ping_pong_pinning\<close> returns, and returns the sequence of the
  specification: for each \<open>smt_pos\<close> below \<open>S\<close>, rounds until every cursor is at the end,
  each round visiting the clusters in order and up to \<^verbatim>\<open>nodes_per_round\<close> nodes of each.
  With \<^verbatim>\<open>nodes_per_round = 1\<close> on two clusters of two nodes, the loop of one SMT slot
  visits cluster0.node0, cluster1.node0, cluster0.node1, cluster1.node1.
\<close>

theorem ping_pong_pinning_order:
  assumes "all_cores clusters \<noteq> []" and "0 < nodes_per_round"
  shows "ping_pong_pinning clusters nodes_per_round =
           Some (Inr (ping_pong_spec clusters (nat nodes_per_round))) \<and>
         pp_while 1 p [[a, b], [c, d]] ([0, 0], []) =
           Some ([2, 2], node_slot p a @ node_slot p c @ node_slot p b @ node_slot p d)"
  using ping_pong_run [OF assms] ping_pong_two_by_two [of p a b c d] by simp

theorem ping_pong_pinning_order_witness:
  "ping_pong_pinning
     [[\<lparr>id' = 0, memory = True, cores_list = [[0, 4]], distance = [10, 11, 20, 21]\<rparr>,
       \<lparr>id' = 1, memory = False, cores_list = [[1, 5]], distance = [11, 10, 21, 20]\<rparr>],
      [\<lparr>id' = 2, memory = True, cores_list = [[2, 6]], distance = [20, 21, 10, 11]\<rparr>,
       \<lparr>id' = 3, memory = False, cores_list = [[3]], distance = [21, 20, 11, 10]\<rparr>]] 1
   = Some (Inr [0, 2, 1, 3, 4, 6, 5])"
  using ping_pong_pinning_order
    [of "[[\<lparr>id' = 0, memory = True, cores_list = [[0, 4]], distance = [10, 11, 20, 21]\<rparr>,
       \<lparr>id' = 1, memory = False, cores_list = [[1, 5]], distance = [11, 10, 21, 20]\<rparr>],
      [\<lparr>id' = 2, memory = True, cores_list = [[2, 6]], distance = [20, 21, 10, 11]\<rparr>,
       \<lparr>id' = 3, memory = False, cores_list = [[3]], distance = [21, 20, 11, 10]\<rparr>]]" 1]
  by (simp add: all_cores_def ping_pong_spec_def smt_width_def ping_pong_visit_def
        rounds_needed_def round_nodes_def node_slot_def upt_rec)

text \<open>
  Claim C4 at a cluster whose only node has no core tuple: \<^verbatim>\<open>cluster_first_pinning\<close>
  returns the empty list, while \<^verbatim>\<open>ping_pong_pinning\<close> raises \<^verbatim>\<open>ValueError\<close> from
  \<^verbatim>\<open>max()\<close> of an empty sequence.
\<close>

theorem ping_pong_pinning_no_cores:
  "all_cores [[\<lparr>id' = 0, memory = True, cores_list = [], distance = [10]\<rparr>]] = [] \<and>
   cluster_first_pinning [[\<lparr>id' = 0, memory = True, cores_list = [], distance = [10]\<rparr>]]
     = Inr [] \<and>
   ping_pong_pinning [[\<lparr>id' = 0, memory = True, cores_list = [], distance = [10]\<rparr>]] 1
     = Some (Inl ValueError)"
  by (simp add: all_cores_def cluster_first_pinning_def ping_pong_pinning_def py_max_def)

lemma smt_entries_all_cores:
  "smt_entries clusters p =
     map (\<lambda>t. t ! p) (filter (\<lambda>t. p < length t) (all_cores clusters))"
proof -
  have nodes: "concat (map (node_slot p) nodes) =
        map (\<lambda>t. t ! p) (filter (\<lambda>t. p < length t) (concat (map cores_list nodes)))" for nodes
    by (induction nodes) (simp_all add: node_slot_def)
  have "smt_entries clusters p = concat (map (node_slot p) (concat clusters))"
    unfolding smt_entries_def by (rule concat_map_concat [symmetric])
  then show ?thesis
    by (simp only: nodes all_cores_def)
qed

lemma concat_singletons: "concat (map (\<lambda>p. [f p]) ps) = map f ps"
  by (induction ps) simp_all

lemma column_tuple:
  assumes le: "length t \<le> S"
  shows "concat (map (\<lambda>p. if p < length t then [t ! p] else []) [0..<S]) = t"
proof -
  have split: "[0..<S] = [0..<length t] @ [length t..<S]"
    using le by (metis le_add_diff_inverse upt_add_eq_append zero_le)
  have "map (\<lambda>p. if p < length t then [t ! p] else []) [0..<length t] =
        map (\<lambda>p. [t ! p]) [0..<length t]"
    by (rule map_cong) simp_all
  then have a: "concat (map (\<lambda>p. if p < length t then [t ! p] else []) [0..<length t]) = t"
    by (simp only: concat_singletons map_nth)
  have b: "concat (map (\<lambda>p. if p < length t then [t ! p] else []) [length t..<S]) = []"
    by simp
  show ?thesis unfolding split by (simp only: map_append concat_append a b append_Nil2)
qed

lemma mset_concat_map_append:
  "mset (concat (map (\<lambda>r. f r @ g r) rs)) =
   mset (concat (map f rs)) + mset (concat (map g rs))"
  by (induction rs) simp_all

lemma mset_columns:
  "list_all (\<lambda>t. length t \<le> S) ts \<Longrightarrow>
   mset (concat (map (\<lambda>p. map (\<lambda>t. t ! p) (filter (\<lambda>t. p < length t) ts)) [0..<S])) =
   mset (concat ts)"
proof (induction ts)
  case Nil
  show ?case by (induction "[0..<S]") simp_all
next
  case (Cons t ts)
  have "(\<lambda>p. map (\<lambda>t. t ! p) (filter (\<lambda>t. p < length t) (t # ts))) =
        (\<lambda>p. (if p < length t then [t ! p] else []) @
              map (\<lambda>t. t ! p) (filter (\<lambda>t. p < length t) ts))"
    by auto
  then show ?case
    using Cons by (simp add: mset_concat_map_append column_tuple)
qed

lemma fold_max_upper: "list_all (\<lambda>x. x \<le> fold max xs (0::nat)) xs"
proof -
  have "x \<le> fold max xs 0" if "x \<in> set xs" for x
    using fold_max_gr [of "x - 1" xs] that
    by (metis fold_max_gr leI less_irrefl)
  then show ?thesis by (simp add: list_all_iff)
qed

lemma mset_cluster_first_spec:
  "mset (cluster_first_spec clusters) = mset (concat (all_cores clusters))"
proof -
  have "list_all (\<lambda>t. length t \<le> smt_width clusters) (all_cores clusters)"
    using fold_max_upper [of "map length (all_cores clusters)"]
    by (simp add: smt_width_def list_all_iff)
  from mset_columns [OF this] show ?thesis
    by (simp add: cluster_first_spec_eq smt_entries_all_cores [abs_def])
qed

lemma concat_round_nodes:
  "concat (map (\<lambda>r. round_nodes k r c) [0..<R]) = take (R * k) c"
proof (induction R)
  case 0
  show ?case by simp
next
  case (Suc R)
  have "Suc R * k = R * k + k" by simp
  then have "take (Suc R * k) c = take (R * k) c @ take k (drop (R * k) c)"
    by (simp only: take_add)
  then show ?case using Suc by (simp add: round_nodes_def)
qed

lemma mset_concat_swap:
  "mset (concat (map (\<lambda>r. concat (map (g r) cs)) rs)) =
   mset (concat (map (\<lambda>c. concat (map (\<lambda>r. g r c) rs)) cs))"
proof (induction cs)
  case Nil
  show ?case by (induction rs) simp_all
next
  case (Cons c cs)
  have "mset (concat (map (\<lambda>r. concat (map (g r) (c # cs))) rs)) =
        mset (concat (map (\<lambda>r. g r c @ concat (map (g r) cs)) rs))"
    by simp
  also have "\<dots> = mset (concat (map (\<lambda>r. g r c) rs)) +
                   mset (concat (map (\<lambda>r. concat (map (g r) cs)) rs))"
    by (rule mset_concat_map_append)
  finally show ?case using Cons by simp
qed

lemma mset_ping_pong_visit:
  assumes "0 < k"
  shows "mset (ping_pong_visit k clusters) = mset (concat clusters)"
proof -
  let ?R = "rounds_needed k clusters"
  have full: "take (?R * k) c = c" if "c \<in> set clusters" for c
  proof -
    have "\<not> ?R * k < length c"
      using rounds_needed_gr [OF assms, of ?R clusters] that by auto
    then show ?thesis by simp
  qed
  have "mset (ping_pong_visit k clusters) =
        mset (concat (map (\<lambda>c. concat (map (\<lambda>r. round_nodes k r c) [0..<?R])) clusters))"
    unfolding ping_pong_visit_def by (rule mset_concat_swap)
  also have "map (\<lambda>c. concat (map (\<lambda>r. round_nodes k r c) [0..<?R])) clusters = clusters"
    using full by (simp add: concat_round_nodes map_idI)
  finally show ?thesis .
qed

lemma mset_concat_map_cong:
  "mset xs = mset ys \<Longrightarrow> mset (concat (map f xs)) = mset (concat (map f ys))"
proof -
  assume eq: "mset xs = mset ys"
  have "mset (concat (map f zs)) = (\<Sum>z\<in>#mset zs. mset (f z))" for zs
    by (induction zs) simp_all
  then show ?thesis using eq by simp
qed

lemma mset_ping_pong_spec:
  assumes "0 < k"
  shows "mset (ping_pong_spec clusters k) = mset (cluster_first_spec clusters)"
proof -
  have slot: "mset (concat (map (node_slot p) (ping_pong_visit k clusters))) =
              mset (smt_entries clusters p)" for p
  proof -
    have "smt_entries clusters p = concat (map (node_slot p) (concat clusters))"
      unfolding smt_entries_def by (rule concat_map_concat [symmetric])
    then show ?thesis
      using mset_concat_map_cong [OF mset_ping_pong_visit [OF assms]] by simp
  qed
  have "mset (concat (map f ps)) = mset (concat (map g ps))"
    if "\<And>p. mset (f p) = mset (g p)" for f g :: "nat \<Rightarrow> int list" and ps
    using that by (induction ps) simp_all
  from this [OF slot] show ?thesis
    by (simp add: ping_pong_spec_def cluster_first_spec_eq)
qed

text \<open>
  Claim C9. For every clusters input that contains a non-empty core tuple and whose first
  cluster's first node has a non-empty core list, and for every positive
  \<^verbatim>\<open>nodes_per_round\<close>, \<^verbatim>\<open>cluster_first_pinning\<close> and \<^verbatim>\<open>ping_pong_pinning\<close> both return,
  and their results are permutations of one multiset: every element of every core tuple
  occurrence, once.
\<close>

theorem pinnings_same_multiset:
  assumes "clusters \<noteq> []" and "hd clusters \<noteq> []"
      and "cores_list (hd (hd clusters)) \<noteq> []"
      and "list_ex (\<lambda>t. t \<noteq> []) (all_cores clusters)"
      and "0 < nodes_per_round"
  shows "\<exists>xs ys. cluster_first_pinning clusters = Inr xs \<and>
                 ping_pong_pinning clusters nodes_per_round = Some (Inr ys) \<and>
                 mset xs = mset ys \<and>
                 mset xs = mset (concat (all_cores clusters))"
proof -
  have ne: "all_cores clusters \<noteq> []"
    using assms(1-3) by (rule all_cores_hd)
  have cf: "cluster_first_pinning clusters = Inr (cluster_first_spec clusters)"
    using assms(1-3) by (simp add: cluster_first_pinning_def cluster_first_run [OF ne])
  have pp: "ping_pong_pinning clusters nodes_per_round =
              Some (Inr (ping_pong_spec clusters (nat nodes_per_round)))"
    using ne assms(5) by (rule ping_pong_run)
  have "mset (cluster_first_spec clusters) = mset (ping_pong_spec clusters (nat nodes_per_round))"
    using mset_ping_pong_spec [of "nat nodes_per_round" clusters] assms(5) by simp
  with cf pp mset_cluster_first_spec [of clusters] show ?thesis by simp
qed

theorem pinnings_same_multiset_witness:
  "cluster_first_pinning
     [[\<lparr>id' = 0, memory = True, cores_list = [[0, 4]], distance = [10, 11, 20, 21]\<rparr>,
       \<lparr>id' = 1, memory = False, cores_list = [[1, 5]], distance = [11, 10, 21, 20]\<rparr>],
      [\<lparr>id' = 2, memory = True, cores_list = [[2, 6]], distance = [20, 21, 10, 11]\<rparr>,
       \<lparr>id' = 3, memory = False, cores_list = [[3]], distance = [21, 20, 11, 10]\<rparr>]]
     = Inr [0, 1, 2, 3, 4, 5, 6] \<and>
   (\<exists>ys. ping_pong_pinning
     [[\<lparr>id' = 0, memory = True, cores_list = [[0, 4]], distance = [10, 11, 20, 21]\<rparr>,
       \<lparr>id' = 1, memory = False, cores_list = [[1, 5]], distance = [11, 10, 21, 20]\<rparr>],
      [\<lparr>id' = 2, memory = True, cores_list = [[2, 6]], distance = [20, 21, 10, 11]\<rparr>,
       \<lparr>id' = 3, memory = False, cores_list = [[3]], distance = [21, 20, 11, 10]\<rparr>]] 2
     = Some (Inr ys) \<and> mset [0, 1, 2, 3, 4, 5, 6] = mset ys)"
  using pinnings_same_multiset
    [of "[[\<lparr>id' = 0, memory = True, cores_list = [[0, 4]], distance = [10, 11, 20, 21]\<rparr>,
       \<lparr>id' = 1, memory = False, cores_list = [[1, 5]], distance = [11, 10, 21, 20]\<rparr>],
      [\<lparr>id' = 2, memory = True, cores_list = [[2, 6]], distance = [20, 21, 10, 11]\<rparr>,
       \<lparr>id' = 3, memory = False, cores_list = [[3]], distance = [21, 20, 11, 10]\<rparr>]]" 2]
  by (simp add: all_cores_def cluster_first_pinning_def py_max_def cf_smt_def cf_cluster_def
        visit_node_def append_smt_def upt_rec)

lemma read_cache_ids_error: "read_cache_ids fs path dirs acc = Inl e \<Longrightarrow> e = ValueError"
  by (induction dirs arbitrary: acc) (auto split: sum.splits option.splits)

lemma index_keys_error: "index_keys names = Inl e \<Longrightarrow> e = ValueError"
  by (induction names) (auto split: option.splits sum.splits)

lemma cpu_dir_error: "cpu_dir i = Inl e \<Longrightarrow> e = ValueError"
  by (auto simp: cpu_dir_def split: option.splits)

lemma get_cache_info_error: "get_cache_info fs i = Inl e \<Longrightarrow> e = ValueError"
  by (auto simp: get_cache_info_def split: sum.splits
      dest: read_cache_ids_error index_keys_error cpu_dir_error)

lemma cores_with_cache_ok:
  assumes "0 \<le> cache_level"
  shows "\<not> list_ex (cache_lookup_raises fs) cores \<Longrightarrow>
         cores_with_cache fs cache_level cores entries =
           Inr (entries @ map (level_entry fs cache_level) (filter (kept_at_level fs cache_level) cores))"
proof (induction cores arbitrary: entries)
  case Nil
  show ?case by simp
next
  case (Cons core cores)
  then have rest: "\<not> list_ex (cache_lookup_raises fs) cores"
    and here: "\<not> cache_lookup_raises fs core" by simp_all
  show ?case
  proof (cases "core = []")
    case True
    then show ?thesis using Cons.IH [OF rest] by (simp add: kept_at_level_def)
  next
    case False
    then obtain ids where ids: "get_cache_info fs (hd core) = Inr ids"
      using here by (auto simp: cache_lookup_raises_def split: sum.splits)
    show ?thesis
    proof (cases "ids = [] \<or> int (length ids) \<le> cache_level")
      case True
      then have "\<not> kept_at_level fs cache_level core"
        using assms by (auto simp: kept_at_level_def ids)
      then show ?thesis using False True ids Cons.IH [OF rest] by simp
    next
      case no: False
      then have "kept_at_level fs cache_level core"
        using False by (auto simp: kept_at_level_def ids)
      moreover have "\<lparr>core_tuple = core, cache_id = ids ! nat cache_level,
                      first_logical_id = hd core\<rparr> = level_entry fs cache_level core"
        by (simp add: level_entry_def level_key_def ids)
      ultimately show ?thesis using False no ids Cons.IH [OF rest] by simp
    qed
  qed
qed

lemma cores_with_cache_raises:
  "list_ex (cache_lookup_raises fs) cores \<Longrightarrow>
   cores_with_cache fs cache_level cores entries = Inl ValueError"
proof (induction cores arbitrary: entries)
  case Nil
  then show ?case by simp
next
  case (Cons core cores)
  show ?case
  proof (cases "cache_lookup_raises fs core")
    case True
    then obtain e where "core \<noteq> []" "get_cache_info fs (hd core) = Inl e"
      by (auto simp: cache_lookup_raises_def split: sum.splits)
    then show ?thesis using get_cache_info_error [of fs "hd core" e] by simp
  next
    case False
    with Cons.prems have "list_ex (cache_lookup_raises fs) cores" by simp
    from Cons.IH [OF this] show ?thesis
      by (auto split: sum.splits dest: get_cache_info_error)
  qed
qed

lemma insort_key_map:
  "insort_key f (g x) (map g xs) = map g (insort_key (\<lambda>y. f (g y)) x xs)"
  by (induction xs) simp_all

lemma sort_key_map: "sort_key f (map g xs) = map g (sort_key (\<lambda>y. f (g y)) xs)"
  by (induction xs) (simp_all add: insort_key_map)

lemma sorted_entries:
  "map core_tuple
     (sort_key (\<lambda>x. (cache_id x, first_logical_id x)) (map (level_entry fs cache_level) cores)) =
   sort_key (level_key fs cache_level) cores"
proof -
  have key: "(\<lambda>y. (cache_id (level_entry fs cache_level y),
                   first_logical_id (level_entry fs cache_level y))) = level_key fs cache_level"
    by (auto simp: level_entry_def level_key_def fun_eq_iff split: sum.splits)
  have "map core_tuple (map (level_entry fs cache_level) xs) = xs" for xs
    by (induction xs) (simp_all add: level_entry_def)
  then show ?thesis by (simp only: sort_key_map key)
qed

text \<open>
  Claim C5, as amended. For a negative cache level \<^verbatim>\<open>optimize_cache_nodes\<close> returns the
  node unchanged. For a level \<open>\<ge> 0\<close>, when no cache lookup of a tuple's first logical
  id raises, the node's core list becomes exactly the original tuples whose first logical
  id yields a cache-id list with an entry at that level (the others are dropped without an
  error), ordered by the key (cache id at the level, first logical id), ties in their
  original order; no other field changes. When a lookup raises (a cache id or the number
  of an \<^verbatim>\<open>index\<close> directory that \<^verbatim>\<open>int\<close> rejects), the call raises \<^verbatim>\<open>ValueError\<close>.
\<close>

theorem optimize_cache_nodes_order:
  "(cache_level < 0 \<longrightarrow> optimize_cache_nodes fs node cache_level = Inr node) \<and>
   (0 \<le> cache_level \<and> \<not> list_ex (cache_lookup_raises fs) (cores_list node) \<longrightarrow>
      (\<exists>cores.
         optimize_cache_nodes fs node cache_level = Inr (node\<lparr>cores_list := cores\<rparr>) \<and>
         cores = sort_key (level_key fs cache_level)
                   (filter (kept_at_level fs cache_level) (cores_list node)) \<and>
         mset cores = mset (filter (kept_at_level fs cache_level) (cores_list node)) \<and>
         sorted (map (level_key fs cache_level) cores))) \<and>
   (0 \<le> cache_level \<and> list_ex (cache_lookup_raises fs) (cores_list node) \<longrightarrow>
      optimize_cache_nodes fs node cache_level = Inl ValueError)"
proof (intro conjI impI)
  assume "cache_level < 0"
  then show "optimize_cache_nodes fs node cache_level = Inr node"
    by (simp add: optimize_cache_nodes_def)
next
  assume a: "0 \<le> cache_level \<and> \<not> list_ex (cache_lookup_raises fs) (cores_list node)"
  let ?cores = "sort_key (level_key fs cache_level)
                  (filter (kept_at_level fs cache_level) (cores_list node))"
  have "optimize_cache_nodes fs node cache_level = Inr (node\<lparr>cores_list := ?cores\<rparr>)"
    using a cores_with_cache_ok [of cache_level fs "cores_list node" "[]"]
    by (simp add: optimize_cache_nodes_def sorted_entries)
  then show "\<exists>cores.
         optimize_cache_nodes fs node cache_level = Inr (node\<lparr>cores_list := cores\<rparr>) \<and>
         cores = sort_key (level_key fs cache_level)
                   (filter (kept_at_level fs cache_level) (cores_list node)) \<and>
         mset cores = mset (filter (kept_at_level fs cache_level) (cores_list node)) \<and>
         sorted (map (level_key fs cache_level) cores)"
    by simp
next
  assume "0 \<le> cache_level \<and> list_ex (cache_lookup_raises fs) (cores_list node)"
  then show "optimize_cache_nodes fs node cache_level = Inl ValueError"
    by (simp add: optimize_cache_nodes_def cores_with_cache_raises)
qed

theorem optimize_cache_nodes_order_witness:
  "optimize_cache_nodes example_tree
     \<lparr>id' = 0, memory = True, cores_list = [[0, 2], [], [1, 3], [4]], distance = [10, 20]\<rparr> 0 =
   Inr \<lparr>id' = 0, memory = True, cores_list = [[1, 3], [0, 2]], distance = [10, 20]\<rparr> \<and>
   optimize_cache_nodes example_tree
     \<lparr>id' = 0, memory = True, cores_list = [[0, 2], [], [1, 3], [4]], distance = [10, 20]\<rparr> (- 1) =
   Inr \<lparr>id' = 0, memory = True, cores_list = [[0, 2], [], [1, 3], [4]], distance = [10, 20]\<rparr> \<and>
   optimize_cache_nodes malformed_tree
     \<lparr>id' = 0, memory = True, cores_list = [[0, 2]], distance = [10, 20]\<rparr> 0 =
   Inl ValueError"
proof -
  let ?node = "\<lparr>id' = 0, memory = True, cores_list = [[0, 2], [], [1, 3], [4]],
                distance = [10, 20]\<rparr>"
  let ?bad = "\<lparr>id' = 0, memory = True, cores_list = [[0, 2]], distance = [10, 20]\<rparr>"
  have reads: "\<not> list_ex (cache_lookup_raises example_tree) (cores_list ?node)"
    by code_simp
  have order: "sort_key (level_key example_tree 0)
                 (filter (kept_at_level example_tree 0) (cores_list ?node)) = [[1, 3], [0, 2]]"
    by code_simp
  have raises: "list_ex (cache_lookup_raises malformed_tree) (cores_list ?bad)"
    by code_simp
  show ?thesis
    using optimize_cache_nodes_order [of 0 example_tree ?node]
      optimize_cache_nodes_order [of "- 1" example_tree ?node]
      optimize_cache_nodes_order [of 0 malformed_tree ?bad]
      reads order raises
    by simp
qed

text \<open>
  Claim C5 as stated fails for a level \<open>\<ge> 0\<close> on a tree with a cache id that is not a
  number: the call raises \<^verbatim>\<open>ValueError\<close> instead of producing a core list.
\<close>

theorem optimize_cache_nodes_raises:
  "read_text malformed_tree (cpu_path @ [''cpu0'', ''cache'', ''index0'', ''id'']) = Inr ''x'' \<and>
   optimize_cache_nodes malformed_tree
     \<lparr>id' = 0, memory = True, cores_list = [[1], [0, 2]], distance = [10]\<rparr> 0 = Inl ValueError"
  by code_simp

lemma py_index_nonneg: "0 \<le> i \<Longrightarrow> i < int (length xs) \<Longrightarrow> py_index xs i = Inr (xs ! nat i)"
  by (simp add: py_index_def)

lemma closest_memory_scan:
  "list_all (\<lambda>a. 0 \<le> id' a) ms \<Longrightarrow>
   closest_memory node ms (map_option (entry node) best, map_option id' best) =
     Inr (map_option (entry node) (scan_best node ms best),
          map_option id' (scan_best node ms best))"
proof (induction ms arbitrary: best)
  case Nil
  show ?case by simp
next
  case (Cons m ms)
  then have nn: "0 \<le> id' m" and rest: "list_all (\<lambda>a. 0 \<le> id' a) ms" by simp_all
  show ?case
  proof (cases "id' m < int (length (distance node))")
    case True
    then have he: "has_entry node m" using nn by (simp add: has_entry_def)
    have ix: "py_index (distance node) (id' m) = Inr (entry node m)"
      using nn True by (simp add: py_index_nonneg entry_def)
    show ?thesis
    proof (cases "case best of None \<Rightarrow> True | Some a \<Rightarrow> entry node m < entry node a")
      case better: True
      then have "(case map_option (entry node) best of None \<Rightarrow> True
                  | Some d \<Rightarrow> entry node m < d)"
        by (cases best) simp_all
      then show ?thesis
        using True ix he better Cons.IH [OF rest, of "Some m"] by simp
    next
      case worse: False
      then have "\<not> (case map_option (entry node) best of None \<Rightarrow> True
                  | Some d \<Rightarrow> entry node m < d)"
        by (cases best) simp_all
      then show ?thesis
        using True ix he worse Cons.IH [OF rest, of best] by simp
    qed
  next
    case False
    then have "\<not> has_entry node m" by (simp add: has_entry_def)
    then show ?thesis using False Cons.IH [OF rest, of best] by simp
  qed
qed

lemma scan_best_None:
  "(scan_best node ms best = None) = (best = None \<and> \<not> list_ex (has_entry node) ms)"
proof (induction ms arbitrary: best)
  case Nil
  show ?case by simp
next
  case (Cons m ms)
  show ?case
  proof (cases "has_entry node m \<and>
                 (case best of None \<Rightarrow> True | Some a \<Rightarrow> entry node m < entry node a)")
    case True
    then show ?thesis using Cons.IH [of "Some m"] by simp
  next
    case False
    have "scan_best node (m # ms) best = scan_best node ms best"
      using if_not_P [OF False] by (simp only: scan_best.simps)
    moreover have "best = None \<longrightarrow> \<not> has_entry node m"
      using False by (cases best) simp_all
    ultimately show ?thesis using Cons.IH [of best] by auto
  qed
qed


lemma map_entry_distinct:
  "distinct (map fst al) \<Longrightarrow>
   AList.map_entry k f al = map (\<lambda>kc. (fst kc, if fst kc = k then f (snd kc) else snd kc)) al"
proof (induction al)
  case Nil
  show ?case by simp
next
  case (Cons p al)
  obtain k' c where p: "p = (k', c)" by (cases p)
  show ?case
  proof (cases "k' = k")
    case True
    then have "k \<notin> fst ` set al" using Cons.prems p by auto
    then have "map (\<lambda>kc. (fst kc, if fst kc = k then f (snd kc) else snd kc)) al = al"
      by (intro map_idI) auto
    then show ?thesis using True p by simp
  next
    case False
    then show ?thesis using Cons p by simp
  qed
qed

lemma update_subset: "set (AList.update k v al) \<subseteq> insert (k, v) (set al)"
  by (induction al) auto

lemma seed_clusters_snoc:
  "seed_clusters (ms @ [m]) = AList.update (id' m) [m] (seed_clusters ms)"
  by (simp add: seed_clusters_def)

lemma seed_clusters_distinct: "distinct (map fst (seed_clusters ms))"
proof (induction ms rule: rev_induct)
  case Nil
  show ?case by (simp add: seed_clusters_def)
next
  case (snoc m ms)
  then show ?case by (simp only: seed_clusters_snoc AList.distinct_update)
qed


lemma seed_clusters_entry:
  "(k, c) \<in> set (seed_clusters ms) \<Longrightarrow> \<exists>m\<in>set ms. id' m = k \<and> c = [m]"
proof (induction ms arbitrary: k c rule: rev_induct)
  case Nil
  then show ?case by (simp add: seed_clusters_def)
next
  case (snoc m ms)
  from snoc.prems have "(k, c) = (id' m, [m]) \<or> (k, c) \<in> set (seed_clusters ms)"
    using update_subset [of "id' m" "[m]" "seed_clusters ms"]
    by (auto simp: seed_clusters_snoc)
  then show ?case using snoc.IH by auto
qed

lemma closest_memory_chosen:
  assumes "list_all (\<lambda>a. 0 \<le> id' a) ms"
  shows "\<exists>d. closest_memory node ms (None, None) = Inr (d, chosen ms node)"
  using closest_memory_scan [OF assms, of node None] by (simp add: chosen_def)

lemma assign_nodes_eq:
  assumes ids: "list_all (\<lambda>a. 0 \<le> id' a) ms"
  shows "distinct (map fst cl) \<Longrightarrow>
         assign_nodes ms nodes cl = Inr (map (\<lambda>kc. (fst kc, assigned ms nodes kc)) cl)"
proof (induction nodes arbitrary: cl)
  case Nil
  show ?case by (simp add: assigned_def)
next
  case (Cons node rest)
  show ?case
  proof (cases "memory node")
    case True
    then show ?thesis using Cons.IH [OF Cons.prems] by (simp add: assigned_def)
  next
    case False
    obtain d where scan: "closest_memory node ms (None, None) = Inr (d, chosen ms node)"
      using closest_memory_chosen [OF ids] by blast
    show ?thesis
    proof (cases "chosen ms node")
      case None
      then show ?thesis using False scan Cons.IH [OF Cons.prems] by (simp add: assigned_def)
    next
      case (Some k)
      let ?cl = "AList.map_entry k (\<lambda>cluster. cluster @ [node]) cl"
      have cl: "?cl = map (\<lambda>kc. (fst kc, if fst kc = k then snd kc @ [node] else snd kc)) cl"
        using Cons.prems by (rule map_entry_distinct)
      have "map fst ?cl = map fst cl" unfolding cl by (simp add: o_def)
      then have dist: "distinct (map fst ?cl)" using Cons.prems by simp
      have "assign_nodes ms (node # rest) cl = assign_nodes ms rest ?cl"
        using False scan Some by simp
      also have "\<dots> = Inr (map (\<lambda>kc. (fst kc, assigned ms rest kc)) ?cl)"
        by (rule Cons.IH [OF dist])
      also have "map (\<lambda>kc. (fst kc, assigned ms rest kc)) ?cl =
                 map (\<lambda>kc. (fst kc, assigned ms (node # rest) kc)) cl"
        unfolding cl using False Some by (simp add: assigned_def o_def)
      finally show ?thesis .
    qed
  qed
qed

lemma member_keys_snd: "member_keys m xs = Inr ks \<Longrightarrow> map snd ks = xs"
  by (induction xs arbitrary: ks) (auto split: sum.splits)

lemma member_key_ok: "0 \<le> id' m \<Longrightarrow> \<exists>k. member_key m x = Inr k"
  by (auto simp: member_key_def py_index_nonneg)

lemma member_keys_ok: "0 \<le> id' m \<Longrightarrow> \<exists>ks. member_keys m xs = Inr ks"
proof (induction xs)
  case Nil
  show ?case by simp
next
  case (Cons x xs)
  obtain k where "member_key m x = Inr k" using member_key_ok [OF Cons.prems] by blast
  moreover obtain ks where "member_keys m xs = Inr ks" using Cons by blast
  ultimately show ?case by simp
qed

lemma sort_cluster_shape:
  assumes "sort_cluster c = Inr s" and "c \<noteq> []"
  shows "\<exists>rest. s = hd c # rest \<and> mset rest = mset (tl c)"
proof (cases "length c \<le> 1")
  case True
  then have "s = c" using assms(1) by (simp add: sort_cluster_def)
  then show ?thesis using assms(2) by (cases c) simp_all
next
  case False
  then obtain ks where ks: "member_keys (hd c) (tl c) = Inr ks"
    and s: "s = hd c # map snd (sort_key fst ks)"
    using assms(1) by (auto simp: sort_cluster_def split: sum.splits)
  have "mset (map snd (sort_key fst ks)) = mset (map snd ks)" by simp
  then show ?thesis using s member_keys_snd [OF ks] by simp
qed

lemma sort_cluster_ok:
  assumes "c \<noteq> []" and "0 \<le> id' (hd c)"
  shows "\<exists>s. sort_cluster c = Inr s"
proof -
  obtain ks where "member_keys (hd c) (tl c) = Inr ks"
    using member_keys_ok [OF assms(2)] by blast
  then show ?thesis by (simp add: sort_cluster_def)
qed

lemma map_result_Inr:
  "map_result f xs = Inr ys \<Longrightarrow> list_all2 (\<lambda>x y. f x = Inr y) xs ys"
  by (induction xs arbitrary: ys) (auto split: sum.splits)

lemma map_result_ok:
  "list_all (\<lambda>x. \<exists>y. f x = Inr y) xs \<Longrightarrow> \<exists>ys. map_result f xs = Inr ys"
proof (induction xs)
  case Nil
  show ?case by simp
next
  case (Cons x xs)
  then obtain y ys where "f x = Inr y" "map_result f xs = Inr ys" by auto
  then show ?case by simp
qed

lemma optimize_cache_nodes_fields:
  "optimize_cache_nodes fs n lvl = Inr n' \<Longrightarrow>
   id' n' = id' n \<and> memory n' = memory n \<and> distance n' = distance n"
  by (auto simp: optimize_cache_nodes_def split: if_splits sum.splits)

lemma list_all2_compose:
  "list_all2 P xs ys \<Longrightarrow> list_all2 Q ys zs \<Longrightarrow> list_all2 (\<lambda>x z. \<exists>y. P x y \<and> Q y z) xs zs"
proof (induction xs ys arbitrary: zs rule: list_all2_induct)
  case Nil
  then show ?case by simp
next
  case (Cons x xs y ys)
  then obtain z zs' where "zs = z # zs'" "Q y z" "list_all2 Q ys zs'"
    by (auto simp: list_all2_Cons1)
  then show ?case using Cons by auto
qed

lemma get_clusters_shape:
  assumes ids: "list_all (\<lambda>a. 0 \<le> id' a) (filter memory nodes)"
      and mem: "filter memory nodes \<noteq> []"
      and run: "get_clusters fs (Some nodes) lvl = (log, Inr clusters)"
  shows "log = [] \<and>
         list_all2 (\<lambda>kc c'. \<exists>s. sort_cluster (assigned (filter memory nodes) nodes kc) = Inr s \<and>
                      list_all2 (\<lambda>n n'. optimize_cache_nodes fs n lvl = Inr n') s c')
           (seed_clusters (filter memory nodes)) clusters"
proof -
  let ?ms = "filter memory nodes"
  let ?seed = "seed_clusters ?ms"
  have ne: "nodes \<noteq> []" using mem by auto
  have asg: "assign_nodes ?ms nodes ?seed =
             Inr (map (\<lambda>kc. (fst kc, assigned ?ms nodes kc)) ?seed)"
    using assign_nodes_eq [OF ids seed_clusters_distinct] .
  have vals: "map snd (map (\<lambda>kc. (fst kc, assigned ?ms nodes kc)) ?seed) =
              map (assigned ?ms nodes) ?seed"
    by (simp add: o_def)
  have unfolded:
    "(case map_result sort_cluster (map (assigned ?ms nodes) ?seed) of
        Inl e \<Rightarrow> ([], Inl e)
      | Inr ordered \<Rightarrow>
          if 0 \<le> lvl
          then ([], map_result (map_result (\<lambda>node. optimize_cache_nodes fs node lvl)) ordered)
          else ([], Inr ordered)) = (log, Inr clusters)"
    using run ne mem by (simp add: get_clusters_def Let_def asg vals del: map_map)
  then obtain ordered where
    ord: "map_result sort_cluster (map (assigned ?ms nodes) ?seed) = Inr ordered"
    by (cases "map_result sort_cluster (map (assigned ?ms nodes) ?seed)") auto
  have fin: "(if 0 \<le> lvl
               then ([], map_result (map_result (\<lambda>node. optimize_cache_nodes fs node lvl)) ordered)
               else ([], Inr ordered)) = (log, Inr clusters)"
    using unfolded by (simp only: ord sum.case)
  have log: "log = []" using fin by (auto split: if_splits)
  have opt: "list_all2 (list_all2 (\<lambda>n n'. optimize_cache_nodes fs n lvl = Inr n')) ordered clusters"
  proof (cases "0 \<le> lvl")
    case True
    then have "map_result (map_result (\<lambda>node. optimize_cache_nodes fs node lvl)) ordered =
               Inr clusters"
      using fin by simp
    from map_result_Inr [OF this] show ?thesis
      by (rule list_all2_mono) (rule map_result_Inr)
  next
    case False
    then have same: "clusters = ordered" using fin by simp
    have "optimize_cache_nodes fs n lvl = Inr n" for n
      using False by (simp add: optimize_cache_nodes_def)
    then show ?thesis unfolding same by (simp add: list_all2_same)
  qed
  have "list_all2 (\<lambda>c s. sort_cluster c = Inr s) (map (assigned ?ms nodes) ?seed) ordered"
    using map_result_Inr [OF ord] .
  then have "list_all2 (\<lambda>kc s. sort_cluster (assigned ?ms nodes kc) = Inr s) ?seed ordered"
    by (simp add: list_all2_map1)
  from list_all2_compose [OF this opt] log show ?thesis by simp
qed

lemma seed_cluster_assigned:
  assumes "kc \<in> set (seed_clusters ms)"
  shows "\<exists>m\<in>set ms. id' m = fst kc \<and>
           assigned ms nodes kc =
             m # filter (\<lambda>n. \<not> memory n \<and> chosen ms n = Some (fst kc)) nodes"
proof -
  obtain k c where kc: "kc = (k, c)" by (cases kc)
  with assms obtain m where "m \<in> set ms" "id' m = k" "c = [m]"
    using seed_clusters_entry [of k c ms] by blast
  then show ?thesis using kc by (auto simp: assigned_def)
qed

lemma get_clusters_returns:
  assumes ids: "list_all (\<lambda>a. 0 \<le> id' a) (filter memory nodes)"
      and lvl: "lvl < 0"
  shows "\<exists>log clusters. get_clusters fs (Some nodes) lvl = (log, Inr clusters)"
proof (cases "nodes = [] \<or> filter memory nodes = []")
  case True
  then show ?thesis by (auto simp: get_clusters_def Let_def)
next
  case False
  let ?ms = "filter memory nodes"
  let ?seed = "seed_clusters ?ms"
  have asg: "assign_nodes ?ms nodes ?seed =
             Inr (map (\<lambda>kc. (fst kc, assigned ?ms nodes kc)) ?seed)"
    using assign_nodes_eq [OF ids seed_clusters_distinct] .
  have vals: "map snd (map (\<lambda>kc. (fst kc, assigned ?ms nodes kc)) ?seed) =
              map (assigned ?ms nodes) ?seed"
    by (simp add: o_def)
  have "\<exists>s. sort_cluster (assigned ?ms nodes kc) = Inr s" if kc: "kc \<in> set ?seed" for kc
  proof -
    obtain m where m: "m \<in> set ?ms"
      "assigned ?ms nodes kc =
         m # filter (\<lambda>n. \<not> memory n \<and> chosen ?ms n = Some (fst kc)) nodes"
      using seed_cluster_assigned [OF kc] by blast
    have "0 \<le> id' m" using ids m(1) by (auto simp: list_all_iff)
    then show ?thesis using sort_cluster_ok [of "assigned ?ms nodes kc"] m(2) by simp
  qed
  then have "list_all (\<lambda>c. \<exists>s. sort_cluster c = Inr s) (map (assigned ?ms nodes) ?seed)"
    by (simp add: list_all_iff)
  from map_result_ok [OF this] obtain ordered where
    "map_result sort_cluster (map (assigned ?ms nodes) ?seed) = Inr ordered" by blast
  then show ?thesis
    using False lvl by (simp add: get_clusters_def Let_def asg vals del: map_map)
qed


lemma list_all2_in_set2:
  "list_all2 P xs ys \<Longrightarrow> y \<in> set ys \<Longrightarrow> \<exists>x\<in>set xs. P x y"
  by (induction xs ys rule: list_all2_induct) auto

lemma returned_cluster:
  assumes kc: "kc \<in> set (seed_clusters ms)"
      and srt: "sort_cluster (assigned ms nodes kc) = Inr s"
      and opt: "list_all2 (\<lambda>n n'. optimize_cache_nodes fs n lvl = Inr n') s c'"
  shows "\<exists>m rest. m \<in> set ms \<and> id' m = fst kc \<and> c' \<noteq> [] \<and>
           optimize_cache_nodes fs m lvl = Inr (hd c') \<and>
           mset rest = mset (filter (\<lambda>n. \<not> memory n \<and> chosen ms n = Some (fst kc)) nodes) \<and>
           list_all2 (\<lambda>n n'. optimize_cache_nodes fs n lvl = Inr n') rest (tl c')"
proof -
  obtain m where m: "m \<in> set ms" "id' m = fst kc"
    "assigned ms nodes kc = m # filter (\<lambda>n. \<not> memory n \<and> chosen ms n = Some (fst kc)) nodes"
    using seed_cluster_assigned [OF kc] by blast
  obtain rest where rest: "s = m # rest"
    "mset rest = mset (filter (\<lambda>n. \<not> memory n \<and> chosen ms n = Some (fst kc)) nodes)"
    using sort_cluster_shape [OF srt] m(3) by auto
  obtain m' rest' where c': "c' = m' # rest'" "optimize_cache_nodes fs m lvl = Inr m'"
    "list_all2 (\<lambda>n n'. optimize_cache_nodes fs n lvl = Inr n') rest rest'"
    using opt rest(1) by (auto simp: list_all2_Cons1)
  show ?thesis
    using m(1,2) rest(2) c' by auto
qed

lemma has_entry_distance: "distance n = distance n' \<Longrightarrow> has_entry n a = has_entry n' a"
  by (simp add: has_entry_def)


text \<open>
  Claim C8, as amended. When the list has a memory-capable node (node ids non-negative),
  a non-memory node whose distance vector has no entry at the id of any memory-capable
  node is in no cluster that \<^verbatim>\<open>get_clusters\<close> returns, and nothing is printed: the node
  is dropped silently.
\<close>

theorem get_clusters_drops_silently:
  assumes "list_ex memory nodes" and "\<not> memory node"
      and "\<not> list_ex (has_entry node) (filter memory nodes)"
      and "list_all (\<lambda>a. 0 \<le> id' a) (filter memory nodes)"
  shows "(optimize_cache_level < 0 \<longrightarrow>
            (\<exists>log clusters. get_clusters fs (Some nodes) optimize_cache_level = (log, Inr clusters))) \<and>
         (\<forall>log clusters.
            get_clusters fs (Some nodes) optimize_cache_level = (log, Inr clusters) \<longrightarrow>
            log = [] \<and> node \<notin> set (concat clusters))"
proof (intro conjI allI impI)
  assume "optimize_cache_level < 0"
  then show "\<exists>log clusters.
      get_clusters fs (Some nodes) optimize_cache_level = (log, Inr clusters)"
    using get_clusters_returns [OF assms(4)] by blast
next
  fix log clusters
  assume run: "get_clusters fs (Some nodes) optimize_cache_level = (log, Inr clusters)"
  let ?ms = "filter memory nodes"
  let ?lvl = optimize_cache_level
  have mem: "?ms \<noteq> []" using assms(1) by (auto simp: list_ex_iff filter_empty_conv)
  note shape = get_clusters_shape [OF assms(4) mem run]
  then show "log = []" by simp
  show "node \<notin> set (concat clusters)"
  proof
    assume "node \<in> set (concat clusters)"
    then obtain c' where c': "c' \<in> set clusters" "node \<in> set c'" by auto
    from shape have "list_all2 (\<lambda>kc c'. \<exists>s. sort_cluster (assigned ?ms nodes kc) = Inr s \<and>
                      list_all2 (\<lambda>n n'. optimize_cache_nodes fs n ?lvl = Inr n') s c')
           (seed_clusters ?ms) clusters" by simp
    from list_all2_in_set2 [OF this c'(1)] obtain kc s where kc:
      "kc \<in> set (seed_clusters ?ms)" "sort_cluster (assigned ?ms nodes kc) = Inr s"
      "list_all2 (\<lambda>n n'. optimize_cache_nodes fs n ?lvl = Inr n') s c'"
      by blast
    from returned_cluster [OF kc] obtain m rest where m:
      "m \<in> set ?ms" "c' \<noteq> []"
      "optimize_cache_nodes fs m ?lvl = Inr (hd c')"
      "mset rest = mset (filter (\<lambda>n. \<not> memory n \<and> chosen ?ms n = Some (fst kc)) nodes)"
      "list_all2 (\<lambda>n n'. optimize_cache_nodes fs n ?lvl = Inr n') rest (tl c')"
      by blast
    have "memory (hd c')" using optimize_cache_nodes_fields [OF m(3)] m(1) by simp
    then have "node \<noteq> hd c'" using assms(2) by auto
    then have "node \<in> set (tl c')" using c'(2) m(2) by (cases c') auto
    from list_all2_in_set2 [OF m(5) this] obtain n where n:
      "n \<in> set rest" "optimize_cache_nodes fs n ?lvl = Inr node" by blast
    have "n \<in> set (filter (\<lambda>n. \<not> memory n \<and> chosen ?ms n = Some (fst kc)) nodes)"
      using n(1) m(4) by (metis mset_eq_setD)
    then have "scan_best n ?ms None \<noteq> None" by (auto simp: chosen_def)
    then have "list_ex (has_entry n) ?ms" using scan_best_None [of n ?ms None] by simp
    moreover have "distance node = distance n"
      using optimize_cache_nodes_fields [OF n(2)] by simp
    ultimately have "list_ex (has_entry node) ?ms"
      using has_entry_distance [of node n] by (simp add: list_ex_iff)
    then show False using assms(3) by simp
  qed
qed


theorem get_clusters_drops_silently_witness:
  "get_clusters example_tree
     (Some [\<lparr>id' = 0, memory = True, cores_list = [[0]], distance = [10, 20]\<rparr>,
            \<lparr>id' = 1, memory = False, cores_list = [[1]], distance = [20, 10]\<rparr>,
            \<lparr>id' = 3, memory = False, cores_list = [[3]], distance = []\<rparr>]) (- 1) =
     ([], Inr [[\<lparr>id' = 0, memory = True, cores_list = [[0]], distance = [10, 20]\<rparr>,
                \<lparr>id' = 1, memory = False, cores_list = [[1]], distance = [20, 10]\<rparr>]]) \<and>
   \<lparr>id' = 3, memory = False, cores_list = [[3]], distance = []\<rparr> \<notin>
     set (concat [[\<lparr>id' = 0, memory = True, cores_list = [[0]], distance = [10, 20]\<rparr>,
                   \<lparr>id' = 1, memory = False, cores_list = [[1]], distance = [20, 10]\<rparr>]])"
proof -
  let ?a0 = "\<lparr>id' = 0, memory = True, cores_list = [[0]], distance = [10, 20]\<rparr>"
  let ?n1 = "\<lparr>id' = 1, memory = False, cores_list = [[1]], distance = [20, 10]\<rparr>"
  let ?n3 = "\<lparr>id' = 3, memory = False, cores_list = [[3]], distance = []\<rparr>"
  let ?nodes = "[?a0, ?n1, ?n3]"
  have h1: "list_ex memory ?nodes" by simp
  have h2: "\<not> memory ?n3" by simp
  have h3: "\<not> list_ex (has_entry ?n3) (filter memory ?nodes)" by (simp add: has_entry_def)
  have h4: "list_all (\<lambda>a. 0 \<le> id' a) (filter memory ?nodes)" by simp
  have run: "get_clusters example_tree (Some ?nodes) (- 1) = ([], Inr [[?a0, ?n1]])"
    by code_simp
  from get_clusters_drops_silently [OF h1 h2 h3 h4, of "- 1" example_tree] run
  have "?n3 \<notin> set (concat [[?a0, ?n1]])" by blast
  with run show ?thesis by blast
qed

text \<open>
  Claim C8 as stated fails twice. A node without any entry is dropped and nothing is
  printed; and when no node has memory, the node (which then has no entry at the id of any
  memory node) stays in the one cluster that is returned.
\<close>

theorem get_clusters_no_drop_warning:
  "get_clusters example_tree
     (Some [\<lparr>id' = 0, memory = True, cores_list = [[0]], distance = [10]\<rparr>,
            \<lparr>id' = 1, memory = False, cores_list = [[1]], distance = []\<rparr>]) (- 1) =
     ([], Inr [[\<lparr>id' = 0, memory = True, cores_list = [[0]], distance = [10]\<rparr>]]) \<and>
   get_clusters example_tree
     (Some [\<lparr>id' = 1, memory = False, cores_list = [[1]], distance = []\<rparr>]) (- 1) =
     ([WarnNoMemoryNodes],
      Inr [[\<lparr>id' = 1, memory = False, cores_list = [[1]], distance = []\<rparr>]])"
  by code_simp

lemma dropWhile_id: "list_all (\<lambda>c. \<not> P c) s \<Longrightarrow> dropWhile P s = s"
  by (cases s) simp_all

lemma strip_with_id: "list_all (\<lambda>c. \<not> P c) s \<Longrightarrow> strip_with P s = s"
proof -
  assume a: "list_all (\<lambda>c. \<not> P c) s"
  then have b: "list_all (\<lambda>c. \<not> P c) (rev s)" by (simp add: list_all_iff)
  show ?thesis
    unfolding strip_with_def by (simp only: dropWhile_id [OF a] dropWhile_id [OF b] rev_rev_ident)
qed

lemma is_decimal_not_space: "is_decimal c \<Longrightarrow> \<not> int_space c"
  by (auto simp: is_decimal_def int_space_def)

lemma digit_groups_decimal: "s \<noteq> [] \<Longrightarrow> list_all is_decimal s \<Longrightarrow> digit_groups s"
proof (induction s rule: digit_groups.induct)
  case 1
  then show ?case by simp
next
  case (2 c)
  then show ?case by simp
next
  case (3 c d cs)
  have "d \<noteq> CHR ''_''" using "3.prems" by (auto simp: is_decimal_def)
  then show ?case using 3 by simp
qed

lemma py_int_decimal:
  assumes ne: "s \<noteq> []" and d: "list_all is_decimal s" and len: "int (length s) \<le> max_str_digits"
  shows "py_int s = Some (digits_value s)"
proof -
  have hd: "is_decimal (hd s)" using ne d by (cases s) simp_all
  then have sign: "hd s \<noteq> CHR ''-''" "hd s \<noteq> CHR ''+''" by (auto simp: is_decimal_def)
  have "list_all (\<lambda>c. \<not> int_space c) s"
    using d by (auto simp: list_all_iff is_decimal_not_space)
  then have strip: "strip_with int_space s = s" by (rule strip_with_id)
  have all: "filter is_decimal s = s" using d by (simp add: list_all_iff)
  show ?thesis
    using ne sign digit_groups_decimal [OF ne d] len
    by (simp add: py_int_def strip all Let_def)
qed

lemma cpus_loop_returns:
  "list_all (\<lambda>name. py_int (drop 3 name) \<noteq> None) names \<Longrightarrow>
   \<exists>log' cpus. cpus_loop fs names (log, acc) = (log', Inr cpus)"
proof (induction names arbitrary: log acc)
  case Nil
  show ?case by simp
next
  case (Cons name names)
  have rest: "list_all (\<lambda>name. py_int (drop 3 name) \<noteq> None) names" using Cons.prems by simp
  obtain v where v: "py_int (drop 3 name) = Some v" using Cons.prems by auto
  show ?case
  proof (cases "read_cpu fs name v")
    case (Inl e)
    then show ?thesis using v Cons.IH [OF rest, of "log @ [WarnCpu name]" acc] by simp
  next
    case (Inr info)
    then show ?thesis using v Cons.IH [OF rest, of log "acc @ [info]"] by simp
  qed
qed

lemma cpus_loop_raises:
  "list_ex (\<lambda>name. py_int (drop 3 name) = None) names \<Longrightarrow>
   \<exists>log'. cpus_loop fs names (log, acc) = (log', Inl ValueError)"
proof (induction names arbitrary: log acc)
  case Nil
  then show ?case by simp
next
  case (Cons name names)
  show ?case
  proof (cases "py_int (drop 3 name)")
    case None
    then show ?thesis by simp
  next
    case (Some v)
    then have rest: "list_ex (\<lambda>name. py_int (drop 3 name) = None) names" using Cons.prems by simp
    show ?thesis
    proof (cases "read_cpu fs name v")
      case (Inl e)
      then show ?thesis using Some Cons.IH [OF rest, of "log @ [WarnCpu name]" acc] by simp
    next
      case (Inr info)
      then show ?thesis using Some Cons.IH [OF rest, of log "acc @ [info]"] by simp
    qed
  qed
qed

lemma py_ints_None: "list_ex (\<lambda>tok. py_int tok = None) toks \<Longrightarrow> py_ints toks = Inl ValueError"
proof (induction toks)
  case Nil
  then show ?case by simp
next
  case (Cons t ts)
  show ?case
  proof (cases "py_int t")
    case None
    then show ?thesis by simp
  next
    case (Some v)
    then have "list_ex (\<lambda>tok. py_int tok = None) ts" using Cons.prems by simp
    from Cons.IH [OF this] show ?thesis using Some by simp
  qed
qed

lemma py_ints_all:
  "list_all (\<lambda>tok. py_int tok \<noteq> None) toks \<Longrightarrow>
   py_ints toks = Inr (map (\<lambda>tok. the (py_int tok)) toks)"
  by (induction toks) auto

lemma py_ints_error: "py_ints toks = Inl e \<Longrightarrow> e = ValueError"
  by (induction toks arbitrary: e) (auto split: option.splits sum.splits)

lemma index_keys_None:
  "list_ex (\<lambda>name. py_int (drop 5 name) = None) names \<Longrightarrow> index_keys names = Inl ValueError"
proof (induction names)
  case Nil
  then show ?case by simp
next
  case (Cons n ns)
  show ?case
  proof (cases "py_int (drop 5 n)")
    case None
    then show ?thesis by simp
  next
    case (Some v)
    then have "list_ex (\<lambda>name. py_int (drop 5 name) = None) ns" using Cons.prems by simp
    from Cons.IH [OF this] show ?thesis using Some by simp
  qed
qed

lemma index_keys_all:
  "list_all (\<lambda>name. py_int (drop 5 name) \<noteq> None) names \<Longrightarrow>
   index_keys names = Inr (map (\<lambda>name. (the (py_int (drop 5 name)), name)) names)"
  by (induction names) auto

lemma sorted_index_names:
  "map snd (sort_key fst (map (\<lambda>name. (f name, name)) names)) = sort_key f names"
  by (simp add: sort_key_map comp_def)

lemma read_cache_ids_prefix:
  "read_cache_ids fs path dirs acc =
     (if list_all (\<lambda>d. cache_id_at fs path d \<noteq> None) (read_prefix fs path dirs)
      then Inr (acc @ map (\<lambda>d. the (cache_id_at fs path d)) (read_prefix fs path dirs))
      else Inl ValueError)"
proof (induction dirs arbitrary: acc)
  case Nil
  show ?case by (simp add: read_prefix_def)
next
  case (Cons d dirs)
  show ?case
  proof (cases "read_text fs (path @ [d, ''id''])")
    case (Inl e)
    then show ?thesis by (simp add: read_prefix_def id_readable_def)
  next
    case (Inr str)
    then have pre: "read_prefix fs path (d # dirs) = d # read_prefix fs path dirs"
      by (simp add: read_prefix_def id_readable_def)
    show ?thesis
    proof (cases "py_int (py_strip str)")
      case None
      then show ?thesis using Inr by (simp add: pre cache_id_at_def)
    next
      case (Some v)
      then show ?thesis using Inr Cons.IH [of "acc @ [v]"] by (simp add: pre cache_id_at_def)
    qed
  qed
qed

lemma get_cache_info_prefix:
  assumes dir: "cpu_dir i = Inr dir" and ls: "iterdir fs (dir @ [''cache'']) = Inr names"
      and keys: "list_all (\<lambda>name. py_int (drop 5 name) \<noteq> None) (filter is_index_name names)"
  shows "get_cache_info fs i =
           read_cache_ids fs (dir @ [''cache''])
             (sort_key (\<lambda>name. the (py_int (drop 5 name))) (filter is_index_name names)) []"
  using dir ls by (simp add: get_cache_info_def index_keys_all [OF keys] sorted_index_names)


text \<open>
  Claim C6, as amended. For a logical id that \<^verbatim>\<open>str\<close> formats (at most 4300 digits; beyond
  that every helper raises \<^verbatim>\<open>ValueError\<close>):
  \<^item> the sibling reader returns the empty list on any \<^verbatim>\<open>OSError\<close> of the read, the list
    of parsed tokens when \<^verbatim>\<open>int\<close> accepts every token, and raises \<^verbatim>\<open>ValueError\<close> when
    it rejects one (empty content is one empty token);
  \<^item> the cache reader returns the empty list when the cache directory cannot be listed
    and raises \<^verbatim>\<open>ValueError\<close> when \<^verbatim>\<open>int\<close> rejects the tail of an \<^verbatim>\<open>index\<close> name that
    \<^verbatim>\<open>isdigit\<close> accepts; otherwise it looks only at the directories, in the order of their
    numbers, before the first one whose \<^verbatim>\<open>id\<close> file cannot be read: it returns their ids
    when all of them parse and raises \<^verbatim>\<open>ValueError\<close> when one does not. A malformed \<^verbatim>\<open>id\<close>
    after an unreadable one is never seen;
  \<^item> the node-marker reader returns \<^verbatim>\<open>None\<close> when the directory of the CPU cannot be
    listed;
  \<^item> no exception other than \<^verbatim>\<open>ValueError\<close> leaves the sibling reader or the cache
    reader;
  \<^item> a single-value read raises the \<^verbatim>\<open>OSError\<close> of the read and the \<^verbatim>\<open>ValueError\<close> of
    the parse; both are caught by \<^verbatim>\<open>get_cpu_info\<close>, which returns the empty list when the
    CPU directory cannot be listed, returns when \<^verbatim>\<open>int\<close> accepts the number of every entry
    \<^verbatim>\<open>cpu<N>\<close>, and raises \<^verbatim>\<open>ValueError\<close> when it rejects one;
  \<^item> \<^verbatim>\<open>int\<close> accepts every non-empty string of at most 4300 decimal digits.
\<close>

theorem attribute_readers_boundary:
  "(cpu_dir i = Inl ValueError \<longrightarrow>
      get_cpus_logical_ids fs i = Inl ValueError \<and> get_cache_info fs i = Inl ValueError \<and>
      get_node_of_cpu fs i = Inl ValueError) \<and>
   (\<forall>dir. cpu_dir i = Inr dir \<longrightarrow>
      (\<forall>e. read_text fs (dir @ [''topology'', ''thread_siblings_list'']) = Inl e \<longrightarrow>
           get_cpus_logical_ids fs i = Inr []) \<and>
      (\<forall>text. read_text fs (dir @ [''topology'', ''thread_siblings_list'']) = Inr text \<longrightarrow>
           (list_all (\<lambda>tok. py_int tok \<noteq> None) (py_split (CHR '','') (py_strip text)) \<longrightarrow>
              get_cpus_logical_ids fs i =
                Inr (map (\<lambda>tok. the (py_int tok)) (py_split (CHR '','') (py_strip text)))) \<and>
           (list_ex (\<lambda>tok. py_int tok = None) (py_split (CHR '','') (py_strip text)) \<longrightarrow>
              get_cpus_logical_ids fs i = Inl ValueError)) \<and>
      (\<forall>e. iterdir fs (dir @ [''cache'']) = Inl e \<longrightarrow> get_cache_info fs i = Inr []) \<and>
      (\<forall>names. iterdir fs (dir @ [''cache'']) = Inr names \<longrightarrow>
           (list_ex (\<lambda>name. py_int (drop 5 name) = None) (filter is_index_name names) \<longrightarrow>
              get_cache_info fs i = Inl ValueError) \<and>
           (list_all (\<lambda>name. py_int (drop 5 name) \<noteq> None) (filter is_index_name names) \<longrightarrow>
              (list_all (\<lambda>d. cache_id_at fs (dir @ [''cache'']) d \<noteq> None)
                 (read_prefix fs (dir @ [''cache''])
                    (sort_key (\<lambda>name. the (py_int (drop 5 name))) (filter is_index_name names))) \<longrightarrow>
               get_cache_info fs i =
                 Inr (map (\<lambda>d. the (cache_id_at fs (dir @ [''cache'']) d))
                        (read_prefix fs (dir @ [''cache''])
                           (sort_key (\<lambda>name. the (py_int (drop 5 name)))
                              (filter is_index_name names))))) \<and>
              (list_ex (\<lambda>d. cache_id_at fs (dir @ [''cache'']) d = None)
                 (read_prefix fs (dir @ [''cache''])
                    (sort_key (\<lambda>name. the (py_int (drop 5 name))) (filter is_index_name names))) \<longrightarrow>
               get_cache_info fs i = Inl ValueError))) \<and>
      (\<forall>e. iterdir fs dir = Inl e \<longrightarrow> get_node_of_cpu fs i = Inr None)) \<and>
   (\<forall>e. get_cpus_logical_ids fs i = Inl e \<longrightarrow> e = ValueError) \<and>
   (\<forall>e. get_cache_info fs i = Inl e \<longrightarrow> e = ValueError) \<and>
   (\<forall>p e. read_text fs p = Inl e \<longrightarrow> read_int fs p = Inl (OSError e)) \<and>
   (\<forall>p text. read_text fs p = Inr text \<longrightarrow>
      read_int fs p =
        (case py_int (py_strip text) of None \<Rightarrow> Inl ValueError | Some v \<Rightarrow> Inr v)) \<and>
   (\<forall>e. iterdir fs cpu_path = Inl e \<longrightarrow> get_cpu_info fs = ([ErrorCpuPath], Inr [])) \<and>
   (\<forall>names. iterdir fs cpu_path = Inr names \<longrightarrow>
      (list_all (\<lambda>name. py_int (drop 3 name) \<noteq> None) (filter is_cpu_name names) \<longrightarrow>
         (\<exists>log cpus. get_cpu_info fs = (log, Inr cpus))) \<and>
      (list_ex (\<lambda>name. py_int (drop 3 name) = None) (filter is_cpu_name names) \<longrightarrow>
         (\<exists>log. get_cpu_info fs = (log, Inl ValueError)))) \<and>
   (\<forall>s. s \<noteq> [] \<and> list_all is_decimal s \<and> int (length s) \<le> max_str_digits \<longrightarrow>
      py_int s = Some (digits_value s))"
proof (intro conjI allI impI)
  assume "cpu_dir i = Inl ValueError"
  then show "get_cpus_logical_ids fs i = Inl ValueError"
    by (simp add: get_cpus_logical_ids_def)
next
  assume "cpu_dir i = Inl ValueError"
  then show "get_cache_info fs i = Inl ValueError" by (simp add: get_cache_info_def)
next
  assume "cpu_dir i = Inl ValueError"
  then show "get_node_of_cpu fs i = Inl ValueError" by (simp add: get_node_of_cpu_def)
next
  fix dir e
  assume "cpu_dir i = Inr dir"
    and "read_text fs (dir @ [''topology'', ''thread_siblings_list'']) = Inl e"
  then show "get_cpus_logical_ids fs i = Inr []" by (simp add: get_cpus_logical_ids_def)
next
  fix dir str
  assume "cpu_dir i = Inr dir"
    and "read_text fs (dir @ [''topology'', ''thread_siblings_list'']) = Inr str"
    and "list_all (\<lambda>tok. py_int tok \<noteq> None) (py_split (CHR '','') (py_strip str))"
  then show "get_cpus_logical_ids fs i =
      Inr (map (\<lambda>tok. the (py_int tok)) (py_split (CHR '','') (py_strip str)))"
    by (simp add: get_cpus_logical_ids_def py_ints_all)
next
  fix dir str
  assume "cpu_dir i = Inr dir"
    and "read_text fs (dir @ [''topology'', ''thread_siblings_list'']) = Inr str"
    and "list_ex (\<lambda>tok. py_int tok = None) (py_split (CHR '','') (py_strip str))"
  then show "get_cpus_logical_ids fs i = Inl ValueError"
    by (simp add: get_cpus_logical_ids_def py_ints_None)
next
  fix dir e
  assume "cpu_dir i = Inr dir" and "iterdir fs (dir @ [''cache'']) = Inl e"
  then show "get_cache_info fs i = Inr []" by (simp add: get_cache_info_def)
next
  fix dir names
  assume "cpu_dir i = Inr dir" and "iterdir fs (dir @ [''cache'']) = Inr names"
    and "list_ex (\<lambda>name. py_int (drop 5 name) = None) (filter is_index_name names)"
  then show "get_cache_info fs i = Inl ValueError"
    by (simp add: get_cache_info_def index_keys_None)
next
  fix dir names
  let ?dirs = "sort_key (\<lambda>name. the (py_int (drop 5 name))) (filter is_index_name names)"
  assume dir: "cpu_dir i = Inr dir" and ls: "iterdir fs (dir @ [''cache'']) = Inr names"
    and keys: "list_all (\<lambda>name. py_int (drop 5 name) \<noteq> None) (filter is_index_name names)"
    and ok: "list_all (\<lambda>d. cache_id_at fs (dir @ [''cache'']) d \<noteq> None)
               (read_prefix fs (dir @ [''cache'']) ?dirs)"
  show "get_cache_info fs i =
      Inr (map (\<lambda>d. the (cache_id_at fs (dir @ [''cache'']) d))
             (read_prefix fs (dir @ [''cache'']) ?dirs))"
    unfolding get_cache_info_prefix [OF dir ls keys]
    by (subst read_cache_ids_prefix) (simp only: ok if_True append_Nil)
next
  fix dir names
  let ?dirs = "sort_key (\<lambda>name. the (py_int (drop 5 name))) (filter is_index_name names)"
  assume dir: "cpu_dir i = Inr dir" and ls: "iterdir fs (dir @ [''cache'']) = Inr names"
    and keys: "list_all (\<lambda>name. py_int (drop 5 name) \<noteq> None) (filter is_index_name names)"
    and bad: "list_ex (\<lambda>d. cache_id_at fs (dir @ [''cache'']) d = None)
               (read_prefix fs (dir @ [''cache'']) ?dirs)"
  from bad have "\<not> list_all (\<lambda>d. cache_id_at fs (dir @ [''cache'']) d \<noteq> None)
               (read_prefix fs (dir @ [''cache'']) ?dirs)"
    by (simp add: list_all_iff list_ex_iff)
  then show "get_cache_info fs i = Inl ValueError"
    unfolding get_cache_info_prefix [OF dir ls keys]
    by (subst read_cache_ids_prefix) simp
next
  fix dir e
  assume "cpu_dir i = Inr dir" and "iterdir fs dir = Inl e"
  then show "get_node_of_cpu fs i = Inr None" by (simp add: get_node_of_cpu_def)
next
  fix e
  assume "get_cpus_logical_ids fs i = Inl e"
  then show "e = ValueError"
    by (auto simp: get_cpus_logical_ids_def split: sum.splits
        dest: py_ints_error cpu_dir_error)
next
  fix e
  assume "get_cache_info fs i = Inl e"
  then show "e = ValueError" by (rule get_cache_info_error)
next
  fix p e
  assume "read_text fs p = Inl e"
  then show "read_int fs p = Inl (OSError e)" by (simp add: read_int_def)
next
  fix p str
  assume "read_text fs p = Inr str"
  then show "read_int fs p =
      (case py_int (py_strip str) of None \<Rightarrow> Inl ValueError | Some v \<Rightarrow> Inr v)"
    by (simp add: read_int_def)
next
  fix e
  assume "iterdir fs cpu_path = Inl e"
  then show "get_cpu_info fs = ([ErrorCpuPath], Inr [])" by (simp add: get_cpu_info_def)
next
  fix names
  assume ls: "iterdir fs cpu_path = Inr names"
    and "list_all (\<lambda>name. py_int (drop 3 name) \<noteq> None) (filter is_cpu_name names)"
  from cpus_loop_returns [OF this(2), of fs "[]" "[]"] obtain log' cpus where
    "cpus_loop fs (filter is_cpu_name names) ([], []) = (log', Inr cpus)" by blast
  then show "\<exists>log cpus. get_cpu_info fs = (log, Inr cpus)"
    using ls by (simp add: get_cpu_info_def)
next
  fix names
  assume ls: "iterdir fs cpu_path = Inr names"
    and "list_ex (\<lambda>name. py_int (drop 3 name) = None) (filter is_cpu_name names)"
  from cpus_loop_raises [OF this(2), of fs "[]" "[]"] obtain log' where
    "cpus_loop fs (filter is_cpu_name names) ([], []) = (log', Inl ValueError)" by blast
  then show "\<exists>log. get_cpu_info fs = (log, Inl ValueError)"
    using ls by (simp add: get_cpu_info_def)
next
  fix s :: string
  assume "s \<noteq> [] \<and> list_all is_decimal s \<and> int (length s) \<le> max_str_digits"
  then show "py_int s = Some (digits_value s)" by (simp add: py_int_decimal)
qed

theorem attribute_readers_boundary_witness:
  "get_cpus_logical_ids example_tree 3 = Inr [] \<and>
   get_cpus_logical_ids example_tree 0 = Inr [0, 2] \<and>
   get_cpus_logical_ids malformed_tree 0 = Inl ValueError \<and>
   get_cache_info example_tree 5 = Inr [] \<and>
   get_cache_info example_tree 0 = Inr [7, 3] \<and>
   get_cache_info partial_cache_tree 1 = Inr [4] \<and>
   get_cache_info partial_cache_tree 0 = Inr [] \<and>
   get_cache_info malformed_tree 0 = Inl ValueError \<and>
   get_cache_info partial_cache_tree 2 = Inl ValueError \<and>
   get_node_of_cpu example_tree 0 = Inr None \<and>
   read_int example_tree (cpu_path @ [''cpu0'', ''topology'', ''core_id'']) =
     Inl (OSError FileNotFoundError) \<and>
   get_cpu_info example_tree = ([ErrorCpuPath], Inr []) \<and>
   (\<exists>log. get_cpu_info partial_cache_tree = (log, Inl ValueError)) \<and>
   py_int ''12'' = Some (digits_value ''12'')"
proof -
  have d: "cpu_dir 0 = Inr (cpu_path @ [''cpu0''])" "cpu_dir 1 = Inr (cpu_path @ [''cpu1''])"
    "cpu_dir 2 = Inr (cpu_path @ [''cpu2''])" "cpu_dir 3 = Inr (cpu_path @ [''cpu3''])"
    "cpu_dir 5 = Inr (cpu_path @ [''cpu5''])"
    by code_simp+
  have r3: "read_text example_tree ((cpu_path @ [''cpu3'']) @ [''topology'',
              ''thread_siblings_list'']) = Inl PermissionError"
    by code_simp
  have r0: "read_text example_tree ((cpu_path @ [''cpu0'']) @ [''topology'',
              ''thread_siblings_list'']) = Inr ''0,2'' \<and>
            list_all (\<lambda>tok. py_int tok \<noteq> None) (py_split (CHR '','') (py_strip ''0,2'')) \<and>
            map (\<lambda>tok. the (py_int tok)) (py_split (CHR '','') (py_strip ''0,2'')) = [0, 2]"
    by code_simp
  have m0: "read_text malformed_tree ((cpu_path @ [''cpu0'']) @ [''topology'',
              ''thread_siblings_list'']) = Inr [] \<and>
            list_ex (\<lambda>tok. py_int tok = None) (py_split (CHR '','') (py_strip []))"
    by code_simp
  have c5: "iterdir example_tree ((cpu_path @ [''cpu5'']) @ [''cache'']) = Inl FileNotFoundError"
    by code_simp
  have c0: "iterdir example_tree ((cpu_path @ [''cpu0'']) @ [''cache'']) =
              Inr [''index1'', ''index0'', ''uevent''] \<and>
            list_all (\<lambda>name. py_int (drop 5 name) \<noteq> None)
              (filter is_index_name [''index1'', ''index0'', ''uevent'']) \<and>
            list_all (\<lambda>d. cache_id_at example_tree ((cpu_path @ [''cpu0'']) @ [''cache'']) d \<noteq> None)
              (read_prefix example_tree ((cpu_path @ [''cpu0'']) @ [''cache''])
                 (sort_key (\<lambda>name. the (py_int (drop 5 name)))
                    (filter is_index_name [''index1'', ''index0'', ''uevent''])))"
    by code_simp
  have v0: "map (\<lambda>d. the (cache_id_at example_tree ((cpu_path @ [''cpu0'']) @ [''cache'']) d))
              (read_prefix example_tree ((cpu_path @ [''cpu0'']) @ [''cache''])
                 (sort_key (\<lambda>name. the (py_int (drop 5 name)))
                    (filter is_index_name [''index1'', ''index0'', ''uevent'']))) = [7, 3]"
    by code_simp
  have p1: "iterdir partial_cache_tree ((cpu_path @ [''cpu1'']) @ [''cache'']) =
              Inr [''index2'', ''index0'', ''index1''] \<and>
            list_all (\<lambda>name. py_int (drop 5 name) \<noteq> None)
              (filter is_index_name [''index2'', ''index0'', ''index1'']) \<and>
            list_all (\<lambda>d. cache_id_at partial_cache_tree ((cpu_path @ [''cpu1'']) @ [''cache'']) d
                          \<noteq> None)
              (read_prefix partial_cache_tree ((cpu_path @ [''cpu1'']) @ [''cache''])
                 (sort_key (\<lambda>name. the (py_int (drop 5 name)))
                    (filter is_index_name [''index2'', ''index0'', ''index1''])))"
    by code_simp
  have w1: "map (\<lambda>d. the (cache_id_at partial_cache_tree ((cpu_path @ [''cpu1'']) @ [''cache'']) d))
              (read_prefix partial_cache_tree ((cpu_path @ [''cpu1'']) @ [''cache''])
                 (sort_key (\<lambda>name. the (py_int (drop 5 name)))
                    (filter is_index_name [''index2'', ''index0'', ''index1'']))) = [4]"
    by code_simp
  have p0: "iterdir partial_cache_tree ((cpu_path @ [''cpu0'']) @ [''cache'']) =
              Inr [''index0'', ''index1''] \<and>
            list_all (\<lambda>name. py_int (drop 5 name) \<noteq> None)
              (filter is_index_name [''index0'', ''index1'']) \<and>
            list_all (\<lambda>d. cache_id_at partial_cache_tree ((cpu_path @ [''cpu0'']) @ [''cache'']) d
                          \<noteq> None)
              (read_prefix partial_cache_tree ((cpu_path @ [''cpu0'']) @ [''cache''])
                 (sort_key (\<lambda>name. the (py_int (drop 5 name)))
                    (filter is_index_name [''index0'', ''index1''])))"
    by code_simp
  have w0: "map (\<lambda>d. the (cache_id_at partial_cache_tree ((cpu_path @ [''cpu0'']) @ [''cache'']) d))
              (read_prefix partial_cache_tree ((cpu_path @ [''cpu0'']) @ [''cache''])
                 (sort_key (\<lambda>name. the (py_int (drop 5 name)))
                    (filter is_index_name [''index0'', ''index1'']))) = []"
    by code_simp
  have mc: "iterdir malformed_tree ((cpu_path @ [''cpu0'']) @ [''cache'']) = Inr [''index0''] \<and>
            list_all (\<lambda>name. py_int (drop 5 name) \<noteq> None) (filter is_index_name [''index0'']) \<and>
            list_ex (\<lambda>d. cache_id_at malformed_tree ((cpu_path @ [''cpu0'']) @ [''cache'']) d = None)
              (read_prefix malformed_tree ((cpu_path @ [''cpu0'']) @ [''cache''])
                 (sort_key (\<lambda>name. the (py_int (drop 5 name)))
                    (filter is_index_name [''index0''])))"
    by code_simp
  have p2: "iterdir partial_cache_tree ((cpu_path @ [''cpu2'']) @ [''cache'']) =
              Inr [''index'' @ [char_of (179 :: nat)]] \<and>
            list_ex (\<lambda>name. py_int (drop 5 name) = None)
              (filter is_index_name [''index'' @ [char_of (179 :: nat)]])"
    by code_simp
  have n0: "iterdir example_tree (cpu_path @ [''cpu0'']) = Inl FileNotFoundError"
    by code_simp
  have s0: "read_text example_tree (cpu_path @ [''cpu0'', ''topology'', ''core_id'']) =
              Inl FileNotFoundError"
    by code_simp
  have l0: "iterdir example_tree cpu_path = Inl FileNotFoundError" by code_simp
  have l1: "iterdir partial_cache_tree cpu_path =
              Inr [''cpu0'', ''cpu1'', ''cpu'' @ [char_of (178 :: nat)]] \<and>
            list_ex (\<lambda>name. py_int (drop 3 name) = None)
              (filter is_cpu_name [''cpu0'', ''cpu1'', ''cpu'' @ [char_of (178 :: nat)]])"
    by code_simp
  have dec: "''12'' \<noteq> [] \<and> list_all is_decimal ''12'' \<and> int (length ''12'') \<le> max_str_digits"
    by code_simp
  note ex0 = attribute_readers_boundary [of 0 example_tree]
  note ex0' = ex0 [THEN conjunct2, THEN conjunct1, rule_format, OF d(1)]
  note ex3' = attribute_readers_boundary [of 3 example_tree, THEN conjunct2, THEN conjunct1,
      rule_format, OF d(4)]
  note ex5' = attribute_readers_boundary [of 5 example_tree, THEN conjunct2, THEN conjunct1,
      rule_format, OF d(5)]
  note ma0 = attribute_readers_boundary [of 0 malformed_tree]
  note ma0' = ma0 [THEN conjunct2, THEN conjunct1, rule_format, OF d(1)]
  note pa0 = attribute_readers_boundary [of 0 partial_cache_tree]
  note pa0' = pa0 [THEN conjunct2, THEN conjunct1, rule_format, OF d(1)]
  note pa1' = attribute_readers_boundary [of 1 partial_cache_tree, THEN conjunct2,
      THEN conjunct1, rule_format, OF d(2)]
  note pa2' = attribute_readers_boundary [of 2 partial_cache_tree, THEN conjunct2,
      THEN conjunct1, rule_format, OF d(3)]
  have "get_cpus_logical_ids example_tree 3 = Inr []"
    using ex3' [THEN conjunct1, rule_format, OF r3]
    by this
  moreover have "get_cpus_logical_ids example_tree 0 = Inr [0, 2]"
    using ex0' [THEN conjunct2, THEN conjunct1, rule_format, OF r0 [THEN conjunct1],
        THEN conjunct1, rule_format, OF r0 [THEN conjunct2, THEN conjunct1]]
      r0 [THEN conjunct2, THEN conjunct2]
    by simp
  moreover have "get_cpus_logical_ids malformed_tree 0 = Inl ValueError"
    using ma0' [THEN conjunct2, THEN conjunct1, rule_format, OF m0 [THEN conjunct1],
        THEN conjunct2, rule_format, OF m0 [THEN conjunct2]]
    by this
  moreover have "get_cache_info example_tree 5 = Inr []"
    using ex5' [THEN conjunct2, THEN conjunct2, THEN conjunct1, rule_format, OF c5]
    by this
  moreover have "get_cache_info example_tree 0 = Inr [7, 3]"
    using ex0' [THEN conjunct2, THEN conjunct2, THEN conjunct2, THEN conjunct1, rule_format,
        OF c0 [THEN conjunct1], THEN conjunct2, rule_format, OF c0 [THEN conjunct2, THEN conjunct1],
        THEN conjunct1, rule_format, OF c0 [THEN conjunct2, THEN conjunct2]]
    by (simp only: v0)
  moreover have "get_cache_info partial_cache_tree 1 = Inr [4]"
    using pa1' [THEN conjunct2, THEN conjunct2, THEN conjunct2, THEN conjunct1, rule_format,
        OF p1 [THEN conjunct1], THEN conjunct2, rule_format, OF p1 [THEN conjunct2, THEN conjunct1],
        THEN conjunct1, rule_format, OF p1 [THEN conjunct2, THEN conjunct2]]
    by (simp only: w1)
  moreover have "get_cache_info partial_cache_tree 0 = Inr []"
    using pa0' [THEN conjunct2, THEN conjunct2, THEN conjunct2, THEN conjunct1, rule_format,
        OF p0 [THEN conjunct1], THEN conjunct2, rule_format, OF p0 [THEN conjunct2, THEN conjunct1],
        THEN conjunct1, rule_format, OF p0 [THEN conjunct2, THEN conjunct2]]
    by (simp only: w0)
  moreover have "get_cache_info malformed_tree 0 = Inl ValueError"
    using ma0' [THEN conjunct2, THEN conjunct2, THEN conjunct2, THEN conjunct1, rule_format,
        OF mc [THEN conjunct1], THEN conjunct2, rule_format, OF mc [THEN conjunct2, THEN conjunct1],
        THEN conjunct2, rule_format, OF mc [THEN conjunct2, THEN conjunct2]]
    by this
  moreover have "get_cache_info partial_cache_tree 2 = Inl ValueError"
    using pa2' [THEN conjunct2, THEN conjunct2, THEN conjunct2, THEN conjunct1, rule_format,
        OF p2 [THEN conjunct1], THEN conjunct1, rule_format, OF p2 [THEN conjunct2]]
    by this
  moreover have "get_node_of_cpu example_tree 0 = Inr None"
    using ex0' [THEN conjunct2, THEN conjunct2, THEN conjunct2, THEN conjunct2, rule_format,
        OF n0]
    by this
  moreover have "read_int example_tree (cpu_path @ [''cpu0'', ''topology'', ''core_id'']) =
      Inl (OSError FileNotFoundError)"
    using ex0 [THEN conjunct2, THEN conjunct2, THEN conjunct2, THEN conjunct2, THEN conjunct1, rule_format, OF s0]
    by this
  moreover have "get_cpu_info example_tree = ([ErrorCpuPath], Inr [])"
    using ex0 [THEN conjunct2, THEN conjunct2, THEN conjunct2, THEN conjunct2, THEN conjunct2, THEN conjunct2, THEN conjunct1, rule_format, OF l0]
    by this
  moreover have "\<exists>log. get_cpu_info partial_cache_tree = (log, Inl ValueError)"
    using pa0 [THEN conjunct2, THEN conjunct2, THEN conjunct2, THEN conjunct2, THEN conjunct2, THEN conjunct2, THEN conjunct2, THEN conjunct1, rule_format, OF l1 [THEN conjunct1],
        THEN conjunct2, rule_format, OF l1 [THEN conjunct2]]
    by this
  moreover have "py_int ''12'' = Some (digits_value ''12'')"
    using ex0 [THEN conjunct2, THEN conjunct2, THEN conjunct2, THEN conjunct2, THEN conjunct2, THEN conjunct2, THEN conjunct2, THEN conjunct2, rule_format, OF dec]
    by this
  ultimately show ?thesis by blast
qed

text \<open>
  Claim C6 as stated fails on parse failures: an empty sibling list file and a cache id
  that is not a number make the readers raise \<^verbatim>\<open>ValueError\<close>.
\<close>

theorem attribute_readers_raise:
  "read_text malformed_tree (cpu_path @ [''cpu0'', ''topology'', ''thread_siblings_list''])
     = Inr [] \<and>
   get_cpus_logical_ids malformed_tree 0 = Inl ValueError \<and>
   read_text malformed_tree (cpu_path @ [''cpu0'', ''cache'', ''index0'', ''id'']) = Inr ''x'' \<and>
   get_cache_info malformed_tree 0 = Inl ValueError"
  by code_simp

lemma collect_cores_Inr:
  "collect_cores fs cpus acc = Inr cores \<Longrightarrow>
   set cores = set acc \<union> {s. s \<noteq> [] \<and> (\<exists>c\<in>set cpus. get_cpus_logical_ids fs c = Inr s)}"
proof (induction cpus arbitrary: acc)
  case Nil
  then show ?case by simp
next
  case (Cons c cpus)
  then obtain s where s: "get_cpus_logical_ids fs c = Inr s"
    and run: "collect_cores fs cpus (if s \<noteq> [] then acc @ [s] else acc) = Inr cores"
    by (auto split: sum.splits)
  from Cons.IH [OF run] show ?case using s by auto
qed

lemma unique_loop_set:
  "set (unique_loop xs seen acc) = set acc \<union> (set xs - seen)"
  by (induction xs seen acc rule: unique_loop.induct) auto

lemma unique_loop_distinct:
  "distinct acc \<Longrightarrow> set acc \<subseteq> seen \<Longrightarrow> distinct (unique_loop xs seen acc)"
  by (induction xs seen acc rule: unique_loop.induct) auto

lemma read_node_Inr:
  assumes "read_node fs mem d i = Inr n"
  shows "\<exists>cpus_data cpus.
           read_text fs (node_path @ [d, ''cpulist'']) = Inr cpus_data \<and>
           parse_cpulist (py_strip cpus_data) = Inr cpus \<and> id' n = i \<and>
           distinct (cores_list n) \<and>
           set (cores_list n) =
             {s. s \<noteq> [] \<and> (\<exists>c\<in>set cpus. get_cpus_logical_ids fs c = Inr s)}"
proof -
  from assms obtain cpus_data cpus cores where
    r: "read_text fs (node_path @ [d, ''cpulist'']) = Inr cpus_data"
       "parse_cpulist (py_strip cpus_data) = Inr cpus"
       "collect_cores fs cpus [] = Inr cores"
       "id' n = i" "cores_list n = unique_loop cores {} []"
    by (auto simp: read_node_def split: sum.splits)
  have "set (cores_list n) = {s. s \<noteq> [] \<and> (\<exists>c\<in>set cpus. get_cpus_logical_ids fs c = Inr s)}"
    using collect_cores_Inr [OF r(3)] by (simp add: r(5) unique_loop_set)
  moreover have "distinct (cores_list n)"
    unfolding r(5) by (rule unique_loop_distinct) simp_all
  ultimately show ?thesis using r(1,2,4) by blast
qed

lemma nodes_loop_Inr:
  "nodes_loop fs mem dirs (log0, acc) = (log, Inr nodes) \<Longrightarrow>
   (\<forall>n\<in>set nodes. n \<in> set acc \<or>
      (\<exists>d\<in>set dirs. \<exists>i. py_int (drop 4 d) = Some i \<and> read_node fs mem d i = Inr n)) \<and>
   (\<forall>m\<in>set log. m \<in> set log0 \<or> (\<exists>i. m = WarnNode i))"
proof (induction dirs arbitrary: log0 acc)
  case Nil
  then show ?case by simp
next
  case (Cons d dirs)
  from Cons.prems obtain i where i: "py_int (drop 4 d) = Some i"
    by (cases "py_int (drop 4 d)") auto
  show ?case
  proof (cases "read_node fs mem d i")
    case (Inl e)
    then have "nodes_loop fs mem dirs (log0 @ [WarnNode i], acc) = (log, Inr nodes)"
      using Cons.prems i by simp
    from Cons.IH [OF this] show ?thesis by auto
  next
    case (Inr n)
    then have "nodes_loop fs mem dirs (log0, acc @ [n]) = (log, Inr nodes)"
      using Cons.prems i by simp
    from Cons.IH [OF this] show ?thesis using i Inr by auto
  qed
qed

lemma get_nodes_info_Inr:
  assumes "get_nodes_info fs = (log, Inr nodes)" and "n \<in> set nodes"
  shows "(\<exists>mem d i. py_int (drop 4 d) = Some i \<and> read_node fs mem d i = Inr n) \<and>
         (\<forall>m\<in>set log. m = WarnMemoryNodes \<or> (\<exists>i. m = WarnNode i))"
proof -
  obtain log0 mem where m:
    "(case read_text fs (node_path @ [''has_memory'']) of
        Inl e \<Rightarrow> ([WarnMemoryNodes], Inr [])
      | Inr text \<Rightarrow> ([], py_ints (py_split (CHR '','') (py_strip text)))) = (log0, Inr mem)"
    using assms(1) by (auto simp: get_nodes_info_def split: sum.splits prod.splits)
  then have log0: "\<forall>m\<in>set log0. m = WarnMemoryNodes" by (auto split: sum.splits)
  obtain names where names: "iterdir fs node_path = Inr names"
    using assms m by (cases "iterdir fs node_path") (auto simp: get_nodes_info_def)
  obtain unsorted where loop:
    "nodes_loop fs mem (filter is_node_name names) (log0, []) = (log, Inr unsorted)"
    and srt: "nodes = sort_key id' unsorted"
    using assms(1) m names by (auto simp: get_nodes_info_def split: sum.splits prod.splits)
  have "n \<in> set unsorted" using assms(2) srt by simp
  with nodes_loop_Inr [OF loop] log0 show ?thesis by fastforce
qed

lemma siblings_consistentD:
  assumes "siblings_consistent fs cpus" and "c \<in> set cpus"
      and "get_cpus_logical_ids fs c = Inr s" and "s \<noteq> []"
  shows "c \<in> set s" and "distinct s"
    and "\<And>c'. c' \<in> set s \<Longrightarrow> c' \<in> set cpus \<and> get_cpus_logical_ids fs c' = Inr s"
  using assms by (auto simp: siblings_consistent_def list_all_iff)

lemma cores_partition:
  assumes cons: "siblings_consistent fs cpus"
      and dist: "distinct cores"
      and cores: "set cores = {s. s \<noteq> [] \<and> (\<exists>c\<in>set cpus. get_cpus_logical_ids fs c = Inr s)}"
  shows "set (concat cores) = {c \<in> set cpus. \<exists>s. get_cpus_logical_ids fs c = Inr s \<and> s \<noteq> []}"
    and "distinct (concat cores)"
proof -
  have core: "s \<noteq> [] \<and> (\<exists>c\<in>set cpus. get_cpus_logical_ids fs c = Inr s)" if "s \<in> set cores" for s
    using that cores by auto
  have member: "x \<in> set cpus \<and> get_cpus_logical_ids fs x = Inr s"
    if sc: "s \<in> set cores" and xs: "x \<in> set s" for s x
  proof -
    obtain c where "s \<noteq> []" "c \<in> set cpus" "get_cpus_logical_ids fs c = Inr s"
      using core [OF sc] by blast
    then show ?thesis using siblings_consistentD(3) [OF cons _ _ _ xs] by blast
  qed
  show "set (concat cores) = {c \<in> set cpus. \<exists>s. get_cpus_logical_ids fs c = Inr s \<and> s \<noteq> []}"
  proof (intro set_eqI iffI)
    fix x
    assume "x \<in> set (concat cores)"
    then obtain s where s: "s \<in> set cores" "x \<in> set s" by auto
    then show "x \<in> {c \<in> set cpus. \<exists>s. get_cpus_logical_ids fs c = Inr s \<and> s \<noteq> []}"
      using member [OF s] core [OF s(1)] by auto
  next
    fix x
    assume "x \<in> {c \<in> set cpus. \<exists>s. get_cpus_logical_ids fs c = Inr s \<and> s \<noteq> []}"
    then obtain s where s: "x \<in> set cpus" "get_cpus_logical_ids fs x = Inr s" "s \<noteq> []" by auto
    then have "s \<in> set cores" using cores by auto
    moreover have "x \<in> set s" using siblings_consistentD(1) [OF cons s] .
    ultimately show "x \<in> set (concat cores)" by auto
  qed
  show "distinct (concat cores)"
  proof (rule distinct_concat)
    show "distinct cores" by (rule dist)
  next
    fix s
    assume s: "s \<in> set cores"
    then obtain c where "s \<noteq> []" "c \<in> set cpus" "get_cpus_logical_ids fs c = Inr s"
      using core by blast
    then show "distinct s" using siblings_consistentD(2) [OF cons] by blast
  next
    fix s t
    assume st: "s \<in> set cores" "t \<in> set cores" "s \<noteq> t"
    show "set s \<inter> set t = {}"
    proof (rule ccontr)
      assume "set s \<inter> set t \<noteq> {}"
      then obtain x where "x \<in> set s" "x \<in> set t" by auto
      then have "get_cpus_logical_ids fs x = Inr s" "get_cpus_logical_ids fs x = Inr t"
        using member st(1,2) by blast+
      then show False using st(3) by simp
    qed
  qed
qed

text \<open>
  Claim C7, as amended. Every node record that \<^verbatim>\<open>get_nodes_info\<close> returns comes from a
  node directory whose \<^verbatim>\<open>cpulist\<close> parsed to a membership list \<open>cpus\<close>; its core tuples
  are, without repetition, the non-empty sibling lists read for the members. When these
  lists partition the members, the union of the ids of the core tuples is the membership
  list without the members whose sibling list could not be read, and no id occurs twice.
  A member left out in this way is in no warning: the only messages are the one for the
  memory nodes and those for whole nodes that were skipped.
\<close>

theorem get_nodes_info_core_union:
  assumes "get_nodes_info fs = (log, Inr nodes)" and "node \<in> set nodes"
  shows "(\<exists>node_dir cpus_data cpus.
            py_int (drop 4 node_dir) = Some (id' node) \<and>
            read_text fs (node_path @ [node_dir, ''cpulist'']) = Inr cpus_data \<and>
            parse_cpulist (py_strip cpus_data) = Inr cpus \<and>
            distinct (cores_list node) \<and>
            set (cores_list node) =
              {s. s \<noteq> [] \<and> (\<exists>c\<in>set cpus. get_cpus_logical_ids fs c = Inr s)} \<and>
            (siblings_consistent fs cpus \<longrightarrow>
               set (concat (cores_list node)) =
                 {c \<in> set cpus. \<exists>s. get_cpus_logical_ids fs c = Inr s \<and> s \<noteq> []} \<and>
               distinct (concat (cores_list node)))) \<and>
         (\<forall>m\<in>set log. m = WarnMemoryNodes \<or> (\<exists>i. m = WarnNode i))"
proof
  from get_nodes_info_Inr [OF assms] obtain mem d i where
    d: "py_int (drop 4 d) = Some i" "read_node fs mem d i = Inr node" by blast
  from read_node_Inr [OF d(2)] obtain cpus_data cpus where r:
    "read_text fs (node_path @ [d, ''cpulist'']) = Inr cpus_data"
    "parse_cpulist (py_strip cpus_data) = Inr cpus" "id' node = i"
    "distinct (cores_list node)"
    "set (cores_list node) =
       {s. s \<noteq> [] \<and> (\<exists>c\<in>set cpus. get_cpus_logical_ids fs c = Inr s)}"
    by blast
  have "siblings_consistent fs cpus \<longrightarrow>
          set (concat (cores_list node)) =
            {c \<in> set cpus. \<exists>s. get_cpus_logical_ids fs c = Inr s \<and> s \<noteq> []} \<and>
          distinct (concat (cores_list node))"
    using cores_partition [OF _ r(4) r(5)] by blast
  then show "\<exists>node_dir cpus_data cpus.
            py_int (drop 4 node_dir) = Some (id' node) \<and>
            read_text fs (node_path @ [node_dir, ''cpulist'']) = Inr cpus_data \<and>
            parse_cpulist (py_strip cpus_data) = Inr cpus \<and>
            distinct (cores_list node) \<and>
            set (cores_list node) =
              {s. s \<noteq> [] \<and> (\<exists>c\<in>set cpus. get_cpus_logical_ids fs c = Inr s)} \<and>
            (siblings_consistent fs cpus \<longrightarrow>
               set (concat (cores_list node)) =
                 {c \<in> set cpus. \<exists>s. get_cpus_logical_ids fs c = Inr s \<and> s \<noteq> []} \<and>
               distinct (concat (cores_list node)))"
    using d(1) r by blast
  show "\<forall>m\<in>set log. m = WarnMemoryNodes \<or> (\<exists>i. m = WarnNode i)"
    using get_nodes_info_Inr [OF assms] by blast
qed

text \<open>
  Claim C7 as stated fails: CPU 1 of the node is a member, its sibling list cannot be
  read, it is in no core tuple, and no warning is recorded.
\<close>

theorem get_nodes_info_silent_omission:
  "parse_cpulist (py_strip ''0-2'') = Inr [0, 1, 2] \<and>
   get_cpus_logical_ids offline_cpu_tree 1 = Inr [] \<and>
   get_nodes_info offline_cpu_tree =
     ([], Inr [\<lparr>id' = 0, memory = True, cores_list = [[0, 2]], distance = [10]\<rparr>])"
  by code_simp

theorem get_nodes_info_core_union_witness:
  "get_nodes_info offline_cpu_tree =
     ([], Inr [\<lparr>id' = 0, memory = True, cores_list = [[0, 2]], distance = [10]\<rparr>]) \<and>
   siblings_consistent offline_cpu_tree [0, 1, 2] \<and>
   set (concat (cores_list \<lparr>id' = 0, memory = True, cores_list = [[0, 2]], distance = [10]\<rparr>)) =
     {c \<in> set [0, 1, 2]. \<exists>s. get_cpus_logical_ids offline_cpu_tree c = Inr s \<and> s \<noteq> []} \<and>
   distinct (concat (cores_list \<lparr>id' = 0, memory = True, cores_list = [[0, 2]], distance = [10]\<rparr>))"
proof -
  let ?node = "\<lparr>id' = 0, memory = True, cores_list = [[0, 2]], distance = [10]\<rparr>"
  have run: "get_nodes_info offline_cpu_tree = ([], Inr [?node])" by code_simp
  have mem: "?node \<in> set [?node]" by simp
  have cons: "siblings_consistent offline_cpu_tree [0, 1, 2]" by code_simp
  have parse: "parse_cpulist (py_strip ''0-2'') = Inr [0, 1, 2]" by code_simp
  from get_nodes_info_core_union [OF run mem] obtain d cpus_data cpus where f:
    "read_text offline_cpu_tree (node_path @ [d, ''cpulist'']) = Inr cpus_data"
    "parse_cpulist (py_strip cpus_data) = Inr cpus"
    "siblings_consistent offline_cpu_tree cpus \<longrightarrow>
       set (concat (cores_list ?node)) =
         {c \<in> set cpus. \<exists>s. get_cpus_logical_ids offline_cpu_tree c = Inr s \<and> s \<noteq> []} \<and>
       distinct (concat (cores_list ?node))"
    by blast
  have "cpus_data = ''0-2''"
    using f(1) by (simp add: offline_cpu_tree_def node_path_def cpu_path_def split: if_splits)
  then have "cpus = [0, 1, 2]" using f(2) parse by simp
  then have "set (concat (cores_list ?node)) =
         {c \<in> set [0, 1, 2]. \<exists>s. get_cpus_logical_ids offline_cpu_tree c = Inr s \<and> s \<noteq> []} \<and>
       distinct (concat (cores_list ?node))"
    using f(3) cons by blast
  with run cons show ?thesis by blast
qed

text \<open>
  Optimizing an optimized node changes nothing: a node object that occurs twice in a
  cluster, and is therefore updated in place twice, ends as the model has it.
\<close>

lemma optimize_cache_nodes_idem:
  assumes "optimize_cache_nodes fs n lvl = Inr n'"
  shows "optimize_cache_nodes fs n' lvl = Inr n'"
proof (cases "lvl < 0")
  case True
  then show ?thesis by (simp add: optimize_cache_nodes_def)
next
  case False
  then have lvl: "0 \<le> lvl" by simp
  let ?cores = "sort_key (level_key fs lvl) (filter (kept_at_level fs lvl) (cores_list n))"
  have ok: "\<not> list_ex (cache_lookup_raises fs) (cores_list n)"
  proof
    assume "list_ex (cache_lookup_raises fs) (cores_list n)"
    then have "optimize_cache_nodes fs n lvl = Inl ValueError"
      using False by (simp add: optimize_cache_nodes_def cores_with_cache_raises)
    then show False using assms by simp
  qed
  have n': "n' = n\<lparr>cores_list := ?cores\<rparr>"
    using assms False cores_with_cache_ok [OF lvl ok, of "[]"]
    by (simp add: optimize_cache_nodes_def sorted_entries)
  have sub: "set ?cores \<subseteq> set (cores_list n)" by auto
  have ok': "\<not> list_ex (cache_lookup_raises fs) ?cores"
    using ok sub by (auto simp: list_ex_iff)
  have kept: "filter (kept_at_level fs lvl) ?cores = ?cores"
    by (rule filter_True) simp
  have "sort_key (level_key fs lvl) ?cores = ?cores"
    by (rule sort_key_id_if_sorted) simp
  then have "optimize_cache_nodes fs (n\<lparr>cores_list := ?cores\<rparr>) lvl =
             Inr (n\<lparr>cores_list := ?cores\<rparr>)"
    using False cores_with_cache_ok [OF lvl ok', of "[]"]
    by (simp add: optimize_cache_nodes_def sorted_entries kept del: sort_key_simps)
  then show ?thesis by (simp only: n')
qed

end
